theory Spec2Isabelle
  imports Complex_Main
begin

section \<open>Python strings\<close>

text \<open>
  A Python \<^verbatim>\<open>str\<close> is a sequence of Unicode code points and \<^verbatim>\<open>len\<close> counts code
  points, so a string is modelled as a list of code points. \<open>u\<close> turns an ASCII
  literal into such a list.
\<close>

type_synonym str = "nat list"

definition u :: "string \<Rightarrow> str" where
  "u s = map of_char s"

text \<open>The code points for which \<^verbatim>\<open>str.isspace\<close> holds; \<^verbatim>\<open>str.strip()\<close> removes them.\<close>

definition isspace :: "nat \<Rightarrow> bool" where
  "isspace c = (c \<in> set [9, 10, 11, 12, 13, 28, 29, 30, 31, 32, 133, 160, 5760,
     8192, 8193, 8194, 8195, 8196, 8197, 8198, 8199, 8200, 8201, 8202,
     8232, 8233, 8239, 8287, 12288])"

definition lstrip :: "str \<Rightarrow> str" where
  "lstrip s = dropWhile isspace s"

definition rstrip :: "str \<Rightarrow> str" where
  "rstrip s = rev (dropWhile isspace (rev s))"

definition strip :: "str \<Rightarrow> str" where
  "strip s = rstrip (lstrip s)"

text \<open>
  \<^verbatim>\<open>s.rfind(c, 0, e)\<close> for a one-character \<^verbatim>\<open>c\<close> and \<^verbatim>\<open>e >= 0\<close>: the highest index
  below \<^verbatim>\<open>min(e, len(s))\<close> that holds \<^verbatim>\<open>c\<close>, or \<open>-1\<close>.
\<close>

definition rfind :: "str \<Rightarrow> nat \<Rightarrow> nat \<Rightarrow> int" where
  "rfind s c e =
     (case filter (\<lambda>i. s ! i = c) (rev [0..<min e (length s)]) of
        [] \<Rightarrow> - 1
      | i # _ \<Rightarrow> int i)"

section \<open>rss.py: split\_message\<close>

text \<open>
  \<^verbatim>\<open>
  def split_message(message_content, chunk_size=1500):
      message_parts = []
      while len(message_content) > chunk_size:
          split_point = message_content.rfind('\n', 0, chunk_size)
          if split_point == -1:
              split_point = message_content.rfind(' ', 0, chunk_size)
          if split_point == -1:
              split_point = chunk_size
          message_parts.append(message_content[:split_point])
          message_content = message_content[split_point:].strip()
      message_parts.append(message_content)
      return message_parts
  \<close>
  The chunk size is a natural number here (every property below is about
  \<^verbatim>\<open>chunk_size >= 1\<close>). With \<^verbatim>\<open>chunk_size = 0\<close> the loop of the source need not end,
  so the loop is a partial function: \<open>None\<close> is "does not return".
\<close>

definition split_point :: "str \<Rightarrow> nat \<Rightarrow> nat" where
  "split_point s n =
     (let sp = rfind s 10 n;
          sp = (if sp = - 1 then rfind s 32 n else sp);
          sp = (if sp = - 1 then int n else sp)
      in nat sp)"

partial_function (option) split_loop :: "str list \<Rightarrow> str \<Rightarrow> nat \<Rightarrow> str list option" where
  "split_loop message_parts s n =
     (if length s > n
      then split_loop (message_parts @ [take (split_point s n) s])
             (strip (drop (split_point s n) s)) n
      else Some (message_parts @ [s]))"

definition split_message :: "str \<Rightarrow> nat \<Rightarrow> str list option" where
  "split_message s n = split_loop [] s n"

text \<open>
  Reading a text back from its chunks: the text starts with the first chunk; what
  follows it is trimmed by \<open>trim\<close> and must be read back from the remaining chunks;
  the last chunk is all that is left. With \<open>trim = lstrip\<close> only leading whitespace
  of a remainder is ignored, with \<open>trim = strip\<close> whitespace at both of its ends.
\<close>

fun rejoins :: "(str \<Rightarrow> str) \<Rightarrow> str list \<Rightarrow> str \<Rightarrow> bool" where
  "rejoins trim [] s = False"
| "rejoins trim [c] s = (s = c)"
| "rejoins trim (c # cs) s =
     (take (length c) s = c \<and> rejoins trim cs (trim (drop (length c) s)))"

section \<open>More of Python's string methods\<close>

text \<open>\<^verbatim>\<open>sep.join(xs)\<close>.\<close>

fun join :: "str \<Rightarrow> str list \<Rightarrow> str" where
  "join sep [] = []"
| "join sep [x] = x"
| "join sep (x # xs) = x @ sep @ join sep xs"

text \<open>
  \<^verbatim>\<open>s.replace(old, new)\<close> for a non-empty \<^verbatim>\<open>old\<close>: the occurrences of \<^verbatim>\<open>old\<close> are
  replaced from left to right, without overlap.
\<close>

fun replace :: "str \<Rightarrow> str \<Rightarrow> str \<Rightarrow> str" where
  "replace old new [] = []"
| "replace old new (c # cs) =
     (if take (length old) (c # cs) = old
      then new @ replace old new (drop (length old - 1) cs)
      else c # replace old new cs)"

text \<open>
  \<^verbatim>\<open>s.splitlines()\<close>: the lines of \<^verbatim>\<open>s\<close> without their line breaks. A line break is
  one of the code points below, or a carriage return followed by a line feed.
\<close>

definition is_linebreak :: "nat \<Rightarrow> bool" where
  "is_linebreak c = (c \<in> set [10, 11, 12, 13, 28, 29, 30, 133, 8232, 8233])"

fun splitlines_from :: "str \<Rightarrow> str \<Rightarrow> str list" where
  "splitlines_from cur [] = (if cur = [] then [] else [cur])"
| "splitlines_from cur [c] = (if is_linebreak c then [cur] else [cur @ [c]])"
| "splitlines_from cur (c # d # cs) =
     (if c = 13 \<and> d = 10 then cur # splitlines_from [] cs
      else if is_linebreak c then cur # splitlines_from [] (d # cs)
      else splitlines_from (cur @ [c]) (d # cs))"

definition splitlines :: "str \<Rightarrow> str list" where
  "splitlines s = splitlines_from [] s"

text \<open>\<^verbatim>\<open>s.split()\<close>: the maximal runs of characters that are not whitespace.\<close>

fun split_from :: "str \<Rightarrow> str \<Rightarrow> str list" where
  "split_from cur [] = (if cur = [] then [] else [cur])"
| "split_from cur (c # cs) =
     (if isspace c then (if cur = [] then split_from [] cs else cur # split_from [] cs)
      else split_from (cur @ [c]) cs)"

definition split_ws :: "str \<Rightarrow> str list" where
  "split_ws s = split_from [] s"

section \<open>Exceptions and collaborators\<close>

text \<open>
  An exception is a value: \<open>Error msg\<close> is a raised exception \<^verbatim>\<open>e\<close> with
  \<^verbatim>\<open>str(e) = msg\<close>. A call that may raise returns \<open>error + 'a\<close>; a call made only for
  its effect returns \<open>error option\<close>.
\<close>

datatype error = Error str

text \<open>
  A parsed page, as BeautifulSoup holds it: text nodes and elements with a tag name
  and children. The soup is the list of top-level nodes.
\<close>

datatype node = Text str | Element string "node list"

record response =
  status_code :: nat
  document :: "node list"

text \<open>
  The value under \<^verbatim>\<open>'published_parsed'\<close> of a feed entry. \<^verbatim>\<open>time.mktime\<close> turns a
  time tuple into seconds since the epoch, or raises (for \<^verbatim>\<open>None\<close>, which feedparser
  stores for a date it cannot parse, and for a date outside the platform's range).
  Timestamps are Python floats, compared only by \<^verbatim>\<open>>\<close>: they are real numbers here.
\<close>

datatype time_tuple = Time_tuple real | Bad_time

fun mktime :: "time_tuple \<Rightarrow> error + real" where
  "mktime (Time_tuple t) = Inr t"
| "mktime Bad_time = Inl (Error (u ''mktime argument out of range''))"

text \<open>
  A feed entry is a dictionary; a field is \<open>None\<close> when the key is absent. A parsed
  feed has the \<^verbatim>\<open>bozo\<close> flag, \<^verbatim>\<open>feed.get("title")\<close> and its entries.
\<close>

record entry =
  title :: "str option"
  link :: "str option"
  published_parsed :: "time_tuple option"

record parsed_feed =
  bozo :: bool
  feed_get_title :: "str option"
  entries :: "entry list"

text \<open>
  The Redis hash \<^verbatim>\<open>rss:feeds\<close>: feed url to watermark, in the order \<^verbatim>\<open>HGETALL\<close> gives.
  The program writes a float with \<^verbatim>\<open>hset\<close> and reads it back with \<^verbatim>\<open>float\<close>, which
  gives the same number, so the hash holds numbers here (the \<^verbatim>\<open>else 0.0\<close> of
  \<^verbatim>\<open>float(last_ts_str) if last_ts_str else 0.0\<close> is for an empty string, which the
  program never writes).
\<close>

type_synonym store = "(str \<times> real) list"

text \<open>
  What the program does to the world, in order: a call of \<^verbatim>\<open>feedparser.parse\<close>, a
  call of \<^verbatim>\<open>process_entry\<close>, of \<^verbatim>\<open>fetch_web_summary\<close>, of the summarizer, of
  \<^verbatim>\<open>channel.send\<close>, and of \<^verbatim>\<open>requests.post\<close> to Telegram (bot token, chat id, text).
  Logging is not modelled.
\<close>

datatype event =
    Parse str
  | Process_entry str entry
  | Fetch str
  | Chat str
  | Send str
  | Post str str str

text \<open>
  The collaborators and the configuration: \<^verbatim>\<open>feedparser.parse\<close>, whether Redis
  answers, \<^verbatim>\<open>time.time()\<close>, \<^verbatim>\<open>requests.get\<close>, the summarizer's answer (the
  \<^verbatim>\<open>content\<close> of the response's message, \<^verbatim>\<open>''\<close> when absent) or the exception it
  raises, whether \<^verbatim>\<open>get_channel\<close> finds the channel, \<^verbatim>\<open>channel.send\<close>,
  \<^verbatim>\<open>get_plugin_enabled("telegram_notifier")\<close>, the bot token and chat id of
  \<^verbatim>\<open>get_plugin_settings("Telegram")\<close>, the rewriting of the announcement for
  Telegram (lines 214 to 221 of rss.py, a pure function of the text),
  \<^verbatim>\<open>requests.post\<close>, and \<^verbatim>\<open>MAX_RESPONSE_LENGTH\<close>. Within one poll cycle a
  collaborator answers the same call in the same way.
\<close>

record env =
  parse :: "str \<Rightarrow> parsed_feed"
  redis_up :: bool
  now :: real
  http_get :: "str \<Rightarrow> error + response"
  chat :: "str \<Rightarrow> error + str"
  channel :: bool
  channel_send :: "str \<Rightarrow> error option"
  telegram_enabled :: "error + bool"
  telegram_settings :: "error + str option \<times> str option"
  telegram_markup :: "str \<Rightarrow> str"
  requests_post :: "str \<Rightarrow> str \<Rightarrow> str \<Rightarrow> error option"
  max_response_length :: nat

section \<open>The extractors\<close>

text \<open>
  \<^verbatim>\<open>for element in soup(names): element.decompose()\<close> removes every element with one
  of the names, with all it contains. \<^verbatim>\<open>get_text(separator)\<close> joins the text nodes
  in document order. \<^verbatim>\<open>soup.find(name)\<close> is the first element with that name in
  document order; \<^verbatim>\<open>soup.body\<close> is \<^verbatim>\<open>soup.find("body")\<close>.
\<close>

fun decompose :: "string list \<Rightarrow> node \<Rightarrow> node list" where
  "decompose names (Text s) = [Text s]"
| "decompose names (Element tag kids) =
     (if tag \<in> set names then []
      else [Element tag (concat (map (decompose names) kids))])"

fun strings :: "node \<Rightarrow> str list" where
  "strings (Text s) = [s]"
| "strings (Element tag kids) = concat (map strings kids)"

fun find_all :: "string \<Rightarrow> node \<Rightarrow> node list" where
  "find_all name (Text s) = []"
| "find_all name (Element tag kids) =
     (if tag = name then [Element tag kids] else []) @ concat (map (find_all name) kids)"

definition soup_find :: "string \<Rightarrow> node list \<Rightarrow> node option" where
  "soup_find name soup =
     (case concat (map (find_all name) soup) of [] \<Rightarrow> None | n # _ \<Rightarrow> Some n)"

definition get_text :: "str \<Rightarrow> node list \<Rightarrow> str" where
  "get_text separator soup = join separator (concat (map strings soup))"

definition unwanted :: "string list" where
  "unwanted = [''script'', ''style'', ''header'', ''footer'', ''nav'', ''aside'']"

text \<open>
  \<^verbatim>\<open>lines = [line.strip() for line in text.splitlines() if line.strip()]\<close> and
  \<^verbatim>\<open>"\n".join(lines)\<close>.
\<close>

definition clean_lines :: "str \<Rightarrow> str" where
  "clean_lines text = join [10] (filter (\<lambda>l. l \<noteq> []) (map strip (splitlines text)))"

text \<open>
  rss.py, \<^verbatim>\<open>fetch_web_summary\<close>, the extractor that \<^verbatim>\<open>process_entry\<close> calls:
  \<^verbatim>\<open>
      try:
          response = requests.get(webpage_url, timeout=10)
          if response.status_code != 200:
              return None
          html = response.text
          soup = BeautifulSoup(html, "html.parser")
          for element in soup(["script", "style", "header", "footer", "nav", "aside"]):
              element.decompose()
          text = soup.get_text(separator="\n")
          lines = [line.strip() for line in text.splitlines() if line.strip()]
          article_text = "\n".join(lines)
          return article_text
      except Exception as e:
          return None
  \<close>
\<close>

definition fetch_web_summary :: "env \<Rightarrow> str \<Rightarrow> str option" where
  "fetch_web_summary env webpage_url =
     (case http_get env webpage_url of
        Inl e \<Rightarrow> None
      | Inr response \<Rightarrow>
          if status_code response \<noteq> 200 then None
          else
            let soup = concat (map (decompose unwanted) (document response));
                text = get_text [10] soup
            in Some (clean_lines text))"

text \<open>
  plugins/web\_search.py, \<^verbatim>\<open>WebSearchPlugin.fetch_web_summary\<close>:
  \<^verbatim>\<open>
          container = soup.find("article") or soup.find("main") or soup.body
          if not container:
              return None
          text = container.get_text(separator="\n")
          lines = [line.strip() for line in text.splitlines() if line.strip()]
          article_text = "\n".join(lines)
          if len(article_text.split()) > 3000:
              article_text = " ".join(article_text.split()[:3000])
          return article_text
  \<close>
  The request and the removal of elements are as in rss.py. An element is never
  falsy, so \<^verbatim>\<open>or\<close> takes the first container that is found.
\<close>

definition web_search_fetch_web_summary :: "env \<Rightarrow> str \<Rightarrow> str option" where
  "web_search_fetch_web_summary env webpage_url =
     (case http_get env webpage_url of
        Inl e \<Rightarrow> None
      | Inr resp \<Rightarrow>
          if status_code resp \<noteq> 200 then None
          else
            let soup = concat (map (decompose unwanted) (document resp));
                container =
                  (case soup_find ''article'' soup of
                     Some a \<Rightarrow> Some a
                   | None \<Rightarrow>
                      (case soup_find ''main'' soup of
                         Some m \<Rightarrow> Some m
                       | None \<Rightarrow> soup_find ''body'' soup))
            in case container of
                 None \<Rightarrow> None
               | Some c \<Rightarrow>
                   let article_text = clean_lines (get_text [10] [c])
                   in Some (if length (split_ws article_text) > 3000
                            then join [32] (take 3000 (split_ws article_text))
                            else article_text))"

section \<open>rss.py: process\_entry\<close>

definition format_summary_for_discord :: "str \<Rightarrow> str" where
  "format_summary_for_discord summary = replace (u ''### '') (u ''# '') summary"

definition summarization_prompt :: "str \<Rightarrow> str" where
  "summarization_prompt article_text =
     u ''Please summarize the following article in a clear and engaging format for Discord. '' @
     u ''Include a title and use bullet points for the main takeaways:'' @ [10, 10] @
     article_text @ [10, 10] @ u ''Summary:''"

text \<open>
  Lines 154 to 180 of \<^verbatim>\<open>process_entry\<close>: the events and \<^verbatim>\<open>summary_text\<close>.
  \<^verbatim>\<open>
      article_text = await loop.run_in_executor(None, fetch_web_summary, link, OLLAMA_MODEL)
      if not article_text:
          summary_text = "Could not retrieve a summary for this article."
      else:
          summarization_prompt = (...)
          try:
              summarization_response = await self.ollama_client.chat(...)
              summary_text = summarization_response['message'].get('content', '').strip()
              if not summary_text:
                  summary_text = "Failed to generate a summary from the article."
          except Exception as e:
              summary_text = f"Error summarizing article: {e}"
  \<close>
  \<^verbatim>\<open>not article_text\<close> holds for \<^verbatim>\<open>None\<close> and for the empty string.
\<close>

definition entry_summary :: "env \<Rightarrow> str \<Rightarrow> event list \<times> str" where
  "entry_summary env lnk =
     (case fetch_web_summary env lnk of
        None \<Rightarrow> ([Fetch lnk], u ''Could not retrieve a summary for this article.'')
      | Some article_text \<Rightarrow>
          if article_text = []
          then ([Fetch lnk], u ''Could not retrieve a summary for this article.'')
          else
            (case chat env (summarization_prompt article_text) of
               Inl (Error msg) \<Rightarrow>
                 ([Fetch lnk, Chat (summarization_prompt article_text)],
                  u ''Error summarizing article: '' @ msg)
             | Inr content \<Rightarrow>
                 ([Fetch lnk, Chat (summarization_prompt article_text)],
                  if strip content = []
                  then u ''Failed to generate a summary from the article.''
                  else strip content)))"

text \<open>The announcement; its first character is the newspaper emoji U+1F4F0.\<close>

definition announcement :: "str \<Rightarrow> str \<Rightarrow> str \<Rightarrow> str \<Rightarrow> str" where
  "announcement feed_title entry_title lnk formatted_summary =
     [128240] @ u '' **New article from '' @ feed_title @ u ''**'' @ [10] @
     u ''**'' @ entry_title @ u ''**'' @ [10] @
     lnk @ [10, 10] @
     formatted_summary"

text \<open>
  \<^verbatim>\<open>for chunk in chunks: await channel.send(chunk)\<close>: the sends that are attempted,
  and the exception that ends the loop, if any.
\<close>

fun send_chunks :: "env \<Rightarrow> str list \<Rightarrow> event list \<times> error option" where
  "send_chunks env [] = ([], None)"
| "send_chunks env (chunk # chunks) =
     (case channel_send env chunk of
        Some e \<Rightarrow> ([Send chunk], Some e)
      | None \<Rightarrow> (case send_chunks env chunks of (evs, r) \<Rightarrow> (Send chunk # evs, r)))"

text \<open>
  Lines 195 to 203: the sends to the Discord channel, inside \<^verbatim>\<open>try\<close>; an exception
  is caught (and logged), so only the events remain.
\<close>

definition send_discord :: "env \<Rightarrow> str list \<Rightarrow> event list" where
  "send_discord env chunks =
     (if channel env
      then (case send_chunks env chunks of
              (evs, Some e) \<Rightarrow> evs
            | (evs, None) \<Rightarrow> evs)
      else [])"

text \<open>
  Lines 205 to 232: the post to Telegram. The two look-ups of the plug-in's
  configuration are outside \<^verbatim>\<open>try\<close>, so an exception of theirs leaves
  \<^verbatim>\<open>process_entry\<close>; an exception of \<^verbatim>\<open>requests.post\<close> is caught. \<^verbatim>\<open>if bot_token and
  chat_id\<close> holds when both are present and not empty.
\<close>

definition send_telegram :: "env \<Rightarrow> str \<Rightarrow> event list \<times> error option" where
  "send_telegram env ann =
     (case telegram_enabled env of
        Inl e \<Rightarrow> ([], Some e)
      | Inr enabled \<Rightarrow>
          if \<not> enabled then ([], None)
          else
            (case telegram_settings env of
               Inl e \<Rightarrow> ([], Some e)
             | Inr (Some bot_token, Some chat_id) \<Rightarrow>
                 if bot_token \<noteq> [] \<and> chat_id \<noteq> []
                 then
                   (case requests_post env bot_token chat_id (telegram_markup env ann) of
                      Some e \<Rightarrow> ([Post bot_token chat_id (telegram_markup env ann)], None)
                    | None \<Rightarrow> ([Post bot_token chat_id (telegram_markup env ann)], None))
                 else ([], None)
             | Inr _ \<Rightarrow> ([], None)))"

text \<open>
  Lines 150 to 190 of \<^verbatim>\<open>process_entry\<close>: the events so far and the announcement.
  \<^verbatim>\<open>
      entry_title = entry.get("title", "No Title")
      link = entry.get("link", "")
      (summary_text as above)
      formatted_summary = format_summary_for_discord(summary_text)
      announcement = (...)
  \<close>
\<close>

definition entry_title :: "entry \<Rightarrow> str" where
  "entry_title entry = (case title entry of None \<Rightarrow> u ''No Title'' | Some t \<Rightarrow> t)"

definition entry_link :: "entry \<Rightarrow> str" where
  "entry_link entry = (case link entry of None \<Rightarrow> [] | Some l \<Rightarrow> l)"

definition entry_announcement :: "env \<Rightarrow> str \<Rightarrow> entry \<Rightarrow> event list \<times> str" where
  "entry_announcement env feed_title entry =
     (case entry_summary env (entry_link entry) of
        (evs, summary_text) \<Rightarrow>
          (evs, announcement feed_title (entry_title entry) (entry_link entry)
                  (format_summary_for_discord summary_text)))"

text \<open>
  \<^verbatim>\<open>process_entry\<close>: the events, and the exception that leaves it, if any. \<open>None\<close>
  is "does not return" (\<^verbatim>\<open>split_message\<close> with a chunk size of 0).
  \<^verbatim>\<open>
      chunks = split_message(announcement, chunk_size=max_response_length)
      (the sends to the channel)
      (the post to Telegram)
  \<close>
\<close>

definition process_entry :: "env \<Rightarrow> str \<Rightarrow> entry \<Rightarrow> (event list \<times> error option) option" where
  "process_entry env feed_title entry =
     (case entry_announcement env feed_title entry of
        (evs, ann) \<Rightarrow>
          (case split_message ann (max_response_length env) of
             None \<Rightarrow> None
           | Some chunks \<Rightarrow>
               (case send_telegram env ann of
                  (tevs, r) \<Rightarrow> Some (evs @ send_discord env chunks @ tevs, r))))"

section \<open>rss.py: the feed store\<close>

fun hset_store :: "store \<Rightarrow> str \<Rightarrow> real \<Rightarrow> store" where
  "hset_store [] k v = [(k, v)]"
| "hset_store ((k', v') # s) k v =
     (if k' = k then (k, v) # s else (k', v') # hset_store s k v)"

definition hset :: "env \<Rightarrow> store \<Rightarrow> str \<Rightarrow> real \<Rightarrow> error + store" where
  "hset env s k v =
     (if redis_up env then Inr (hset_store s k v) else Inl (Error (u ''Connection refused'')))"

text \<open>\<^verbatim>\<open>hdel\<close> answers with the number of fields it removed: one if the field was there.\<close>

definition hdel :: "env \<Rightarrow> store \<Rightarrow> str \<Rightarrow> error + bool \<times> store" where
  "hdel env s k =
     (if redis_up env
      then Inr (k \<in> set (map fst s), filter (\<lambda>(k', v). k' \<noteq> k) s)
      else Inl (Error (u ''Connection refused'')))"

text \<open>\<^verbatim>\<open>get_feeds\<close>: the hash, or the empty dictionary when Redis raises.\<close>

definition get_feeds :: "env \<Rightarrow> store \<Rightarrow> (str \<times> real) list" where
  "get_feeds env s = (if redis_up env then s else [])"

text \<open>
  The loop of \<^verbatim>\<open>add_feed\<close> over the entries (lines 106 to 110), with \<^verbatim>\<open>last_ts\<close> as
  its state:
  \<^verbatim>\<open>
      for entry in parsed_feed.entries:
          if 'published_parsed' in entry:
              entry_ts = time.mktime(entry.published_parsed)
              if entry_ts > last_ts:
                  last_ts = entry_ts
  \<close>
\<close>

fun newest :: "real \<Rightarrow> entry list \<Rightarrow> error + real" where
  "newest last_ts [] = Inr last_ts"
| "newest last_ts (e # es) =
     (case published_parsed e of
        None \<Rightarrow> newest last_ts es
      | Some tt \<Rightarrow>
          (case mktime tt of
             Inl err \<Rightarrow> Inl err
           | Inr entry_ts \<Rightarrow> newest (if entry_ts > last_ts then entry_ts else last_ts) es))"

text \<open>
  \<^verbatim>\<open>add_feed\<close>: what it returns (an exception of \<^verbatim>\<open>mktime\<close> is not caught and reaches
  the caller) and the store afterwards.
  \<^verbatim>\<open>
      parsed_feed = feedparser.parse(feed_url)
      if parsed_feed.bozo:
          return False
      last_ts = 0.0
      if parsed_feed.entries:
          (the loop above)
      else:
          last_ts = time.time()
      try:
          self.redis.hset(self.feeds_key, feed_url, last_ts)
          return True
      except Exception as e:
          return False
  \<close>
\<close>

definition add_feed :: "env \<Rightarrow> store \<Rightarrow> str \<Rightarrow> (error + bool) \<times> store" where
  "add_feed env s feed_url =
     (let parsed_feed = parse env feed_url in
      if bozo parsed_feed then (Inr False, s)
      else
        (case (if entries parsed_feed \<noteq> [] then newest 0 (entries parsed_feed)
               else Inr (now env)) of
           Inl err \<Rightarrow> (Inl err, s)
         | Inr last_ts \<Rightarrow>
             (case hset env s feed_url last_ts of
                Inl err \<Rightarrow> (Inr False, s)
              | Inr s' \<Rightarrow> (Inr True, s'))))"

definition remove_feed :: "env \<Rightarrow> store \<Rightarrow> str \<Rightarrow> bool \<times> store" where
  "remove_feed env s feed_url =
     (case hdel env s feed_url of
        Inl err \<Rightarrow> (False, s)
      | Inr (removed, s') \<Rightarrow> (if removed then (True, s') else (False, s')))"

section \<open>rss.py: poll\_feeds\<close>

text \<open>
  \<^verbatim>\<open>sorted(parsed_feed.entries, key=lambda e: time.mktime(e.published_parsed) if
  'published_parsed' in e else 0)\<close>: the keys are computed first, in order, and an
  exception of \<^verbatim>\<open>mktime\<close> ends the sort; the sort is stable.
\<close>

fun sort_keys :: "entry list \<Rightarrow> error + real list" where
  "sort_keys [] = Inr []"
| "sort_keys (e # es) =
     (case (case published_parsed e of None \<Rightarrow> Inr 0 | Some tt \<Rightarrow> mktime tt) of
        Inl err \<Rightarrow> Inl err
      | Inr k \<Rightarrow> (case sort_keys es of Inl err \<Rightarrow> Inl err | Inr ks \<Rightarrow> Inr (k # ks)))"

definition sorted_entries :: "entry list \<Rightarrow> error + entry list" where
  "sorted_entries es =
     (case sort_keys es of
        Inl err \<Rightarrow> Inl err
      | Inr ks \<Rightarrow> Inr (map snd (sort_key fst (zip ks es))))"

text \<open>
  The loop over the sorted entries (lines 253 to 260), with \<^verbatim>\<open>new_last_ts\<close> as its
  state: the events, and \<^verbatim>\<open>new_last_ts\<close> at the end or the exception that ends the
  loop. \<open>None\<close> is "does not return".
  \<^verbatim>\<open>
      for entry in sorted_entries:
          if 'published_parsed' not in entry:
              continue
          entry_ts = time.mktime(entry.published_parsed)
          if entry_ts > last_ts:
              await self.process_entry(feed_title, entry)
              if entry_ts > new_last_ts:
                  new_last_ts = entry_ts
  \<close>
\<close>

fun process_new ::
  "env \<Rightarrow> str \<Rightarrow> real \<Rightarrow> real \<Rightarrow> entry list \<Rightarrow> (event list \<times> (error + real)) option" where
  "process_new env feed_title last_ts new_last_ts [] = Some ([], Inr new_last_ts)"
| "process_new env feed_title last_ts new_last_ts (e # es) =
     (case published_parsed e of
        None \<Rightarrow> process_new env feed_title last_ts new_last_ts es
      | Some tt \<Rightarrow>
          (case mktime tt of
             Inl err \<Rightarrow> Some ([], Inl err)
           | Inr entry_ts \<Rightarrow>
               if entry_ts > last_ts
               then
                 (case process_entry env feed_title e of
                    None \<Rightarrow> None
                  | Some (evs, Some err) \<Rightarrow> Some (Process_entry feed_title e # evs, Inl err)
                  | Some (evs, None) \<Rightarrow>
                      (case process_new env feed_title last_ts
                              (if entry_ts > new_last_ts then entry_ts else new_last_ts) es of
                         None \<Rightarrow> None
                       | Some (evs', r) \<Rightarrow> Some (Process_entry feed_title e # evs @ evs', r)))
               else process_new env feed_title last_ts new_last_ts es))"

text \<open>
  The body of the loop over the feeds (lines 239 to 265) for one feed: the events
  and the store afterwards. Every exception inside the body is caught by its
  \<^verbatim>\<open>except Exception\<close> (and logged); the store is then as it was, since the write is
  the last statement.
  \<^verbatim>\<open>
      try:
          last_ts = float(last_ts_str) if last_ts_str else 0.0
          parsed_feed = await asyncio.to_thread(feedparser.parse, feed_url)
          if parsed_feed.bozo:
              continue
          feed_title = parsed_feed.feed.get("title", feed_url)
          new_last_ts = last_ts
          sorted_entries = sorted(...)
          (the loop above)
          if new_last_ts > last_ts:
              self.redis.hset(self.feeds_key, feed_url, new_last_ts)
      except Exception as e:
          logger.error(...)
  \<close>
\<close>

definition poll_feed :: "env \<Rightarrow> store \<Rightarrow> str \<Rightarrow> real \<Rightarrow> (event list \<times> store) option" where
  "poll_feed env s feed_url last_ts =
     (let parsed_feed = parse env feed_url in
      if bozo parsed_feed then Some ([Parse feed_url], s)
      else
        let ftitle = (case feed_get_title parsed_feed of None \<Rightarrow> feed_url | Some t \<Rightarrow> t) in
        case sorted_entries (entries parsed_feed) of
          Inl err \<Rightarrow> Some ([Parse feed_url], s)
        | Inr sorted_es \<Rightarrow>
            (case process_new env ftitle last_ts last_ts sorted_es of
               None \<Rightarrow> None
             | Some (evs, Inl err) \<Rightarrow> Some (Parse feed_url # evs, s)
             | Some (evs, Inr new_last_ts) \<Rightarrow>
                 if new_last_ts > last_ts
                 then
                   (case hset env s feed_url new_last_ts of
                      Inl err \<Rightarrow> Some (Parse feed_url # evs, s)
                    | Inr s' \<Rightarrow> Some (Parse feed_url # evs, s'))
                 else Some (Parse feed_url # evs, s)))"

text \<open>
  One cycle of \<^verbatim>\<open>poll_feeds\<close> (one iteration of its \<^verbatim>\<open>while True\<close>, without the
  sleep): \<^verbatim>\<open>feeds = self.get_feeds()\<close>, then the body above for each item of the
  snapshot, in order. The cycle runs alone: no \<^verbatim>\<open>add_feed\<close> or \<^verbatim>\<open>remove_feed\<close>
  happens while it awaits.
\<close>

fun poll_items :: "env \<Rightarrow> store \<Rightarrow> (str \<times> real) list \<Rightarrow> (event list \<times> store) option" where
  "poll_items env s [] = Some ([], s)"
| "poll_items env s ((feed_url, last_ts) # feeds) =
     (case poll_feed env s feed_url last_ts of
        None \<Rightarrow> None
      | Some (evs, s') \<Rightarrow>
          (case poll_items env s' feeds of
             None \<Rightarrow> None
           | Some (evs', s'') \<Rightarrow> Some (evs @ evs', s'')))"

definition poll_cycle :: "env \<Rightarrow> store \<Rightarrow> (event list \<times> store) option" where
  "poll_cycle env s = poll_items env s (get_feeds env s)"

text \<open>The entries handed to \<^verbatim>\<open>process_entry\<close>, in the order of the calls.\<close>

fun processed :: "event list \<Rightarrow> entry list" where
  "processed [] = []"
| "processed (Process_entry feed_title e # evs) = e # processed evs"
| "processed (ev # evs) = processed evs"

text \<open>The published timestamp of an entry, when it is known.\<close>

definition entry_ts :: "entry \<Rightarrow> real option" where
  "entry_ts e =
     (case published_parsed e of
        None \<Rightarrow> None
      | Some tt \<Rightarrow> (case mktime tt of Inl err \<Rightarrow> None | Inr t \<Rightarrow> Some t))"

definition ts_le :: "entry \<Rightarrow> entry \<Rightarrow> bool" where
  "ts_le a b =
     (case (entry_ts a, entry_ts b) of
        (Some x, Some y) \<Rightarrow> x \<le> y
      | _ \<Rightarrow> False)"

text \<open>The published timestamps that are known, in the order of the entries.\<close>

definition timestamps :: "entry list \<Rightarrow> real list" where
  "timestamps es = List.map_filter entry_ts es"

text \<open>The key by which \<^verbatim>\<open>sorted\<close> orders an entry whose date converts.\<close>

definition sort_key_of :: "entry \<Rightarrow> real" where
  "sort_key_of e = (case entry_ts e of None \<Rightarrow> 0 | Some t \<Rightarrow> t)"

section \<open>Example inputs\<close>

text \<open>
  A world in which every feed is malformed, no page can be fetched, the summarizer
  answers with an empty text, the channel accepts every message and the Telegram
  plug-in is off; the examples below change it where they need to.
\<close>

definition quiet :: env where
  "quiet =
     \<lparr> parse = (\<lambda>feed_url. \<lparr>bozo = True, feed_get_title = None, entries = []\<rparr>),
       redis_up = True,
       now = 1000,
       http_get = (\<lambda>webpage_url. Inl (Error (u ''unreachable''))),
       chat = (\<lambda>prompt. Inr []),
       channel = True,
       channel_send = (\<lambda>chunk. None),
       telegram_enabled = Inr False,
       telegram_settings = Inr (None, None),
       telegram_markup = (\<lambda>text. text),
       requests_post = (\<lambda>bot_token chat_id text. None),
       max_response_length = 1500 \<rparr>"

definition entry_at :: "string \<Rightarrow> real \<Rightarrow> entry" where
  "entry_at name t =
     \<lparr>title = Some (u name), link = Some (u name), published_parsed = Some (Time_tuple t)\<rparr>"

definition undated :: "string \<Rightarrow> entry" where
  "undated name = \<lparr>title = Some (u name), link = Some (u name), published_parsed = None\<rparr>"

definition feed_of :: "entry list \<Rightarrow> parsed_feed" where
  "feed_of es = \<lparr>bozo = False, feed_get_title = None, entries = es\<rparr>"

definition page_of :: "node list \<Rightarrow> error + response" where
  "page_of nodes = Inr \<lparr>status_code = 200, document = nodes\<rparr>"

text \<open>
  A feed that lists its entries newest first, one of them without a date; no page
  can be fetched, so every announcement carries the fallback text.
\<close>

definition newsroom :: env where
  "newsroom =
     quiet\<lparr>parse := (\<lambda>feed_url.
       feed_of [entry_at ''c'' 300, entry_at ''b'' 200, undated ''x'', entry_at ''a'' 100])\<rparr>"

definition fallback_announcement :: "string \<Rightarrow> string \<Rightarrow> str" where
  "fallback_announcement feed_name name =
     announcement (u feed_name) (u name) (u name)
       (u ''Could not retrieve a summary for this article.'')"

text \<open>A feed whose only entry has no date.\<close>

definition undated_feed :: env where
  "undated_feed = quiet\<lparr>parse := (\<lambda>feed_url. feed_of [undated ''x''])\<rparr>"

text \<open>
  A world in which every page is the given document, and a world in which, on top
  of that, the summarizer raises an exception with the given message.
\<close>

definition browsing :: "node list \<Rightarrow> env" where
  "browsing nodes = quiet\<lparr>http_get := (\<lambda>webpage_url. page_of nodes)\<rparr>"

definition failing_summarizer :: "string \<Rightarrow> env" where
  "failing_summarizer msg =
     (browsing [Text (u ''story'')])\<lparr>chat := (\<lambda>prompt. Inl (Error (u msg)))\<rparr>"

text \<open>A page with a navigation bar, a block of links and the article.\<close>

definition sidebar_page :: "node list" where
  "sidebar_page =
     [Element ''html''
        [Element ''head'' [Element ''script'' [Text (u ''track()'')]],
         Element ''body''
           [Element ''nav'' [Text (u ''Home'')],
            Element ''div'' [Text (u ''Related links'')],
            Element ''article'' [Text (u ''The story'')]]]]"

text \<open>
  Two watched feeds with one new entry each, a channel that rejects every message,
  and a Telegram plug-in that is configured but whose request fails.
\<close>

definition broken_sinks :: env where
  "broken_sinks =
     quiet\<lparr>parse := (\<lambda>feed_url. feed_of [entry_at ''a'' 200]),
           channel_send := (\<lambda>chunk. Some (Error (u ''Forbidden''))),
           telegram_enabled := Inr True,
           telegram_settings := Inr (Some (u ''token''), Some (u ''42'')),
           requests_post := (\<lambda>bot_token chat_id text. Some (Error (u ''timed out'')))\<rparr>"

text \<open>A feed with an entry at time 200 listed before an entry at time 100.\<close>

definition two_entries :: env where
  "two_entries = quiet\<lparr>parse := (\<lambda>feed_url. feed_of [entry_at ''b'' 200, entry_at ''a'' 100])\<rparr>"

section \<open>Facts about strings\<close>

lemma rfind_cases:
  "rfind s c e = - 1 \<or> (\<exists>i. rfind s c e = int i \<and> i < e \<and> i < length s \<and> s ! i = c)"
proof (cases "filter (\<lambda>i. s ! i = c) (rev [0..<min e (length s)])")
  case Nil
  then show ?thesis by (simp add: rfind_def)
next
  case (Cons i js)
  then have "i \<in> set (filter (\<lambda>i. s ! i = c) (rev [0..<min e (length s)]))"
    by simp
  then have "i < e \<and> i < length s \<and> s ! i = c"
    by auto
  moreover have "rfind s c e = int i"
    using Cons by (simp add: rfind_def)
  ultimately show ?thesis by blast
qed

lemma split_point_le: "split_point s n \<le> n"
  using rfind_cases [of s 10 n] rfind_cases [of s 32 n]
  by (auto simp: split_point_def Let_def)

lemma split_point_0:
  assumes "split_point s n = 0" and "1 \<le> n"
  shows "s \<noteq> [] \<and> isspace (hd s)"
proof -
  have "(0 < length s \<and> s ! 0 = 10) \<or> (0 < length s \<and> s ! 0 = 32)"
    using assms rfind_cases [of s 10 n] rfind_cases [of s 32 n]
    by (auto simp: split_point_def Let_def split: if_splits)
  then show ?thesis
    by (cases s) (auto simp: isspace_def)
qed

lemma length_strip_le: "length (strip s) \<le> length s"
proof -
  have "length (strip s) = length (dropWhile isspace (rev (dropWhile isspace s)))"
    by (simp add: strip_def rstrip_def lstrip_def)
  also have "\<dots> \<le> length (rev (dropWhile isspace s))"
    by (rule length_dropWhile_le)
  also have "\<dots> \<le> length s"
    by (simp add: length_dropWhile_le)
  finally show ?thesis .
qed

lemma length_strip_less:
  assumes "s \<noteq> []" and "isspace (hd s)"
  shows "length (strip s) < length s"
proof -
  obtain c cs where s: "s = c # cs"
    using assms(1) by (cases s) auto
  have "length (strip s) = length (dropWhile isspace (rev (dropWhile isspace s)))"
    by (simp add: strip_def rstrip_def lstrip_def)
  also have "\<dots> \<le> length (rev (dropWhile isspace s))"
    by (rule length_dropWhile_le)
  also have "\<dots> = length (dropWhile isspace cs)"
    using assms(2) s by simp
  also have "\<dots> \<le> length cs"
    by (rule length_dropWhile_le)
  finally show ?thesis
    using s by simp
qed

lemma strip_decomp:
  "\<exists>l r. list_all isspace l \<and> list_all isspace r \<and> s = l @ strip s @ r"
proof -
  let ?l = "takeWhile isspace s"
  let ?m = "dropWhile isspace s"
  let ?r = "rev (takeWhile isspace (rev ?m))"
  have "?m = rev (dropWhile isspace (rev ?m)) @ ?r"
    by (metis rev_append rev_rev_ident takeWhile_dropWhile_id)
  then have "?m = strip s @ ?r"
    by (simp add: strip_def rstrip_def lstrip_def)
  then have "s = ?l @ strip s @ ?r"
    by (metis takeWhile_dropWhile_id)
  moreover have "list_all isspace ?l"
    by (simp add: list_all_iff) (meson set_takeWhileD)
  moreover have "list_all isspace ?r"
    by (simp add: list_all_iff) (meson set_takeWhileD)
  ultimately show ?thesis by blast
qed

lemma remainder_shrinks:
  assumes "1 \<le> n" and "n < length s"
  shows "length (strip (drop (split_point s n) s)) < length s"
proof (cases "split_point s n = 0")
  case True
  then show ?thesis
    using split_point_0 [OF True assms(1)] length_strip_less [of s] by simp
next
  case False
  have "length (strip (drop (split_point s n) s)) \<le> length (drop (split_point s n) s)"
    by (rule length_strip_le)
  also have "\<dots> < length s"
    using False assms(2) by simp
  finally show ?thesis .
qed

text \<open>A run of whitespace after the text is absorbed by the gap after the last chunk.\<close>

lemma gaps_absorb:
  assumes "length gs = length cs" and "cs \<noteq> []"
    and "list_all (list_all isspace) gs" and "list_all isspace r"
  shows "\<exists>gs'. length gs' = length cs \<and> list_all (list_all isspace) gs' \<and>
           concat (map2 (@) cs gs') = concat (map2 (@) cs gs) @ r"
proof -
  obtain cs0 c where cs: "cs = cs0 @ [c]"
    using assms(2) by (metis rev_exhaust)
  obtain gs0 g where gs: "gs = gs0 @ [g]"
    using assms(1,2) by (metis length_0_conv rev_exhaust)
  have len: "length gs0 = length cs0"
    using assms(1) cs gs by simp
  let ?gs' = "gs0 @ [g @ r]"
  have "length ?gs' = length cs"
    using len cs by simp
  moreover have "list_all (list_all isspace) ?gs'"
    using assms(3,4) gs by simp
  moreover have "concat (map2 (@) cs ?gs') = concat (map2 (@) cs gs) @ r"
    using len cs gs by simp
  ultimately show ?thesis by blast
qed

section \<open>The loop of split\_message\<close>

lemma split_loop_props:
  assumes "1 \<le> n"
  shows "\<exists>cs. split_loop parts s n = Some (parts @ cs) \<and> cs \<noteq> [] \<and>
           list_all (\<lambda>c. length c \<le> n) cs \<and>
           (if length s \<le> n then cs = [s] else 2 \<le> length cs) \<and>
           rejoins strip cs s \<and>
           (\<exists>gs. length gs = length cs \<and> list_all (list_all isspace) gs \<and>
                 s = concat (map2 (@) cs gs))"
proof (induction "length s" arbitrary: s parts rule: less_induct)
  case less
  show ?case
  proof (cases "n < length s")
    case False
    have "split_loop parts s n = Some (parts @ [s])"
      using False by (subst split_loop.simps) simp
    moreover have "\<exists>gs. length gs = length [s] \<and> list_all (list_all isspace) gs \<and>
        s = concat (map2 (@) [s] gs)"
      by (rule exI [of _ "[[]]"]) simp
    ultimately show ?thesis
      using False by simp
  next
    case True
    let ?sp = "split_point s n"
    let ?c = "take ?sp s"
    let ?t = "drop ?sp s"
    have sp: "?sp \<le> n"
      by (rule split_point_le)
    have lenc: "length ?c = ?sp"
      using sp True by simp
    have "length (strip ?t) < length s"
      using remainder_shrinks [OF assms True] .
    from less [OF this, of "parts @ [?c]"]
    obtain cs gs where cs:
      "split_loop (parts @ [?c]) (strip ?t) n = Some ((parts @ [?c]) @ cs)"
      "cs \<noteq> []" "list_all (\<lambda>c. length c \<le> n) cs" "rejoins strip cs (strip ?t)"
      "length gs = length cs" "list_all (list_all isspace) gs"
      "strip ?t = concat (map2 (@) cs gs)"
      by blast
    have run: "split_loop parts s n = Some (parts @ ?c # cs)"
      using True cs(1) by (subst split_loop.simps) simp
    have rej: "rejoins strip (?c # cs) s"
      using cs(2,4) lenc by (cases cs) simp_all
    obtain l r where lr: "list_all isspace l" "list_all isspace r" "?t = l @ strip ?t @ r"
      using strip_decomp [of ?t] by blast
    obtain gs' where gs': "length gs' = length cs" "list_all (list_all isspace) gs'"
      "concat (map2 (@) cs gs') = concat (map2 (@) cs gs) @ r"
      using gaps_absorb [OF cs(5) cs(2) cs(6) lr(2)] by blast
    have "s = ?c @ ?t"
      by simp
    also have "\<dots> = ?c @ l @ concat (map2 (@) cs gs')"
      using lr(3) cs(7) gs'(3) by simp
    finally have "s = concat (map2 (@) (?c # cs) (l # gs'))"
      by simp
    moreover have "length (l # gs') = length (?c # cs)"
      using gs'(1) by simp
    moreover have "list_all (list_all isspace) (l # gs')"
      using lr(1) gs'(2) by simp
    ultimately have gaps: "\<exists>gs. length gs = length (?c # cs) \<and>
        list_all (list_all isspace) gs \<and> s = concat (map2 (@) (?c # cs) gs)"
      by blast
    have "list_all (\<lambda>c. length c \<le> n) (?c # cs)"
      using cs(3) sp by simp
    moreover have "2 \<le> length (?c # cs)"
      using cs(2) by (cases cs) simp_all
    ultimately show ?thesis
      using run rej gaps True by (intro exI [of _ "?c # cs"]) simp
  qed
qed

lemma split_message_props:
  assumes "1 \<le> n"
  shows "\<exists>cs. split_message s n = Some cs \<and> cs \<noteq> [] \<and>
           list_all (\<lambda>c. length c \<le> n) cs \<and>
           (if length s \<le> n then cs = [s] else 2 \<le> length cs) \<and>
           rejoins strip cs s \<and>
           (\<exists>gs. length gs = length cs \<and> list_all (list_all isspace) gs \<and>
                 s = concat (map2 (@) cs gs))"
  using split_loop_props [OF assms, of "[]" s] by (simp add: split_message_def)

text \<open>Two runs of the loop, step by step.\<close>

lemma split_message_abcd:
  "split_message (u ''abcd '') 3 = Some [u ''abc'', u ''d'']"
  apply (simp add: split_message_def u_def)
  apply (subst split_loop.simps)
  apply (simp add: split_point_def rfind_def strip_def lstrip_def rstrip_def isspace_def upt_rec)
  apply (subst split_loop.simps)
  apply simp
  done

lemma split_message_leading_space:
  "split_point (u '' abcdefg'') 3 = 0 \<and>
   split_message (u '' abcdefg'') 3 = Some [[], u ''abc'', u ''def'', u ''g'']"
  apply (simp add: split_message_def u_def)
  apply (subst split_loop.simps)
  apply (simp add: split_point_def rfind_def strip_def lstrip_def rstrip_def isspace_def upt_rec)
  apply (subst split_loop.simps)
  apply (simp add: split_point_def rfind_def strip_def lstrip_def rstrip_def isspace_def upt_rec)
  apply (subst split_loop.simps)
  apply (simp add: split_point_def rfind_def strip_def lstrip_def rstrip_def isspace_def upt_rec)
  apply (subst split_loop.simps)
  apply simp
  done

section \<open>Facts about process\_entry\<close>

lemma processed_append: "processed (xs @ ys) = processed xs @ processed ys"
  by (induction xs rule: processed.induct) simp_all

lemma processed_send_chunks: "processed (fst (send_chunks env chunks)) = []"
  by (induction chunks) (auto split: option.splits prod.splits)

lemma processed_send_discord: "processed (send_discord env chunks) = []"
  using processed_send_chunks [of env chunks]
  by (auto simp: send_discord_def split: prod.splits option.splits)

lemma processed_send_telegram: "processed (fst (send_telegram env ann)) = []"
  by (auto simp: send_telegram_def split: sum.splits option.splits prod.splits)

lemma processed_entry_summary: "processed (fst (entry_summary env lnk)) = []"
  by (auto simp: entry_summary_def split: option.splits sum.splits error.splits)

lemma processed_entry_announcement:
  "processed (fst (entry_announcement env feed_title e)) = []"
  using processed_entry_summary [of env "entry_link e"]
  by (auto simp: entry_announcement_def split: prod.splits)

lemma process_entry_returns:
  assumes "1 \<le> max_response_length env"
  shows "\<exists>evs r. process_entry env feed_title e = Some (evs, r)"
proof -
  obtain evs ann where a: "entry_announcement env feed_title e = (evs, ann)"
    by (cases "entry_announcement env feed_title e")
  obtain chunks where c: "split_message ann (max_response_length env) = Some chunks"
    using split_message_props [OF assms, of ann] by blast
  obtain tevs r where t: "send_telegram env ann = (tevs, r)"
    by (cases "send_telegram env ann")
  show ?thesis
    by (simp add: process_entry_def a c t)
qed

lemma processed_process_entry:
  assumes "process_entry env feed_title e = Some (evs, r)"
  shows "processed evs = []"
proof -
  obtain evs1 ann where a: "entry_announcement env feed_title e = (evs1, ann)"
    by (cases "entry_announcement env feed_title e")
  obtain tevs r' where t: "send_telegram env ann = (tevs, r')"
    by (cases "send_telegram env ann")
  have 1: "processed evs1 = []"
    using processed_entry_announcement [of env feed_title e] a by simp
  have 2: "processed tevs = []"
    using processed_send_telegram [of env ann] t by simp
  obtain chunks where "evs = evs1 @ send_discord env chunks @ tevs"
    using assms by (auto simp: process_entry_def a t split: option.splits)
  then show ?thesis
    using 1 2 by (simp add: processed_append processed_send_discord)
qed

section \<open>Facts about the loop over the entries\<close>

lemma process_new_returns:
  assumes "1 \<le> max_response_length env"
  shows "\<exists>evs r. process_new env feed_title last_ts new_last_ts es = Some (evs, r)"
proof (induction es arbitrary: new_last_ts)
  case Nil
  show ?case by simp
next
  case (Cons e es)
  show ?case
  proof (cases "published_parsed e")
    case None
    then show ?thesis using Cons by simp
  next
    case (Some tt)
    show ?thesis
    proof (cases "mktime tt")
      case (Inl err)
      then show ?thesis using Some by simp
    next
      case (Inr t)
      show ?thesis
      proof (cases "t > last_ts")
        case False
        then show ?thesis using Some Inr Cons by simp
      next
        case True
        obtain evs r where pe: "process_entry env feed_title e = Some (evs, r)"
          using process_entry_returns [OF assms] by blast
        show ?thesis
        proof (cases r)
          case (Some err)
          then show ?thesis using \<open>published_parsed e = Some tt\<close> Inr True pe by simp
        next
          case None
          obtain evs' r' where
            "process_new env feed_title last_ts (if t > new_last_ts then t else new_last_ts) es
               = Some (evs', r')"
            using Cons by blast
          then show ?thesis
            using \<open>published_parsed e = Some tt\<close> Inr True pe None by simp
        qed
      qed
    qed
  qed
qed

text \<open>
  One step of the loop: the entry is skipped, or ends the loop with an exception, or
  is processed and the loop goes on.
\<close>

lemma process_new_Cons:
  assumes "process_new env feed_title last_ts new_last_ts (e # es) = Some (evs, r)"
  shows "(\<exists>n. process_new env feed_title last_ts n es = Some (evs, r) \<and> new_last_ts \<le> n) \<or>
         processed evs = [] \<or>
         (\<exists>t. entry_ts e = Some t \<and> last_ts < t \<and>
            (processed evs = [e] \<or>
             (\<exists>evs' n. process_new env feed_title last_ts n es = Some (evs', r) \<and>
                new_last_ts \<le> n \<and> processed evs = e # processed evs')))"
proof (cases "published_parsed e")
  case None
  then show ?thesis using assms by auto
next
  case (Some tt)
  show ?thesis
  proof (cases "mktime tt")
    case (Inl err)
    then show ?thesis using assms Some by auto
  next
    case (Inr t)
    have ts: "entry_ts e = Some t"
      using Some Inr by (simp add: entry_ts_def)
    show ?thesis
    proof (cases "t > last_ts")
      case False
      then show ?thesis using assms Some Inr by auto
    next
      case True
      show ?thesis
      proof (cases "process_entry env feed_title e")
        case None
        then show ?thesis using assms Some Inr True by simp
      next
        case pe: (Some p)
        obtain pevs pr where p: "p = (pevs, pr)" by (cases p)
        have none: "processed pevs = []"
          using processed_process_entry pe p by blast
        show ?thesis
        proof (cases pr)
          case (Some err)
          then have "processed evs = [e]"
            using assms \<open>published_parsed e = Some tt\<close> Inr True pe p none by auto
          then show ?thesis using ts True by blast
        next
          case None
          let ?n = "if t > new_last_ts then t else new_last_ts"
          obtain evs' where rest: "process_new env feed_title last_ts ?n es = Some (evs', r)"
            and evs: "evs = Process_entry feed_title e # pevs @ evs'"
            using assms \<open>published_parsed e = Some tt\<close> Inr True pe p None
            by (auto split: option.splits)
          have "processed evs = e # processed evs'"
            using evs none by (simp add: processed_append)
          moreover have "new_last_ts \<le> ?n" by simp
          ultimately show ?thesis
            using ts True rest by blast
        qed
      qed
    qed
  qed
qed

lemma process_new_processed:
  assumes "process_new env feed_title last_ts new_last_ts es = Some (evs, r)"
  shows "set (processed evs) \<subseteq> {e \<in> set es. \<exists>t. entry_ts e = Some t \<and> last_ts < t} \<and>
         (sorted_wrt R es \<longrightarrow> sorted_wrt R (processed evs))"
  using assms
proof (induction es arbitrary: new_last_ts evs)
  case Nil
  then show ?case by simp
next
  case (Cons e es)
  from process_new_Cons [OF Cons.prems]
  consider
    (skip) n where "process_new env feed_title last_ts n es = Some (evs, r)"
  | (none) "processed evs = []"
  | (last) t where "entry_ts e = Some t" "last_ts < t" "processed evs = [e]"
  | (more) t evs' n where "entry_ts e = Some t" "last_ts < t"
      "process_new env feed_title last_ts n es = Some (evs', r)"
      "processed evs = e # processed evs'"
    by blast
  then show ?case
  proof cases
    case skip
    from Cons.IH [OF skip] show ?thesis by auto
  next
    case none
    then show ?thesis by simp
  next
    case last
    then show ?thesis by simp
  next
    case more
    from Cons.IH [OF more(3)] more(1,2,4) show ?thesis by auto
  qed
qed

text \<open>The watermark the loop ends with is never below the one it starts with.\<close>

lemma process_new_watermark:
  assumes "process_new env feed_title last_ts new_last_ts es = Some (evs, Inr n)"
  shows "new_last_ts \<le> n"
  using assms
proof (induction es arbitrary: new_last_ts evs)
  case Nil
  then show ?case by simp
next
  case (Cons e es)
  show ?case
  proof (cases "published_parsed e")
    case None
    then show ?thesis using Cons by simp
  next
    case (Some tt)
    show ?thesis
    proof (cases "mktime tt")
      case (Inl err)
      then show ?thesis using Cons.prems Some by simp
    next
      case (Inr t)
      show ?thesis
      proof (cases "t > last_ts")
        case False
        then show ?thesis using Cons Some Inr by simp
      next
        case True
        let ?n = "if t > new_last_ts then t else new_last_ts"
        from Cons.prems Some Inr True
        obtain evs' where "process_new env feed_title last_ts ?n es = Some (evs', Inr n)"
          by (auto split: option.splits prod.splits)
        from Cons.IH [OF this] show ?thesis
          by (simp split: if_splits)
      qed
    qed
  qed
qed

section \<open>Facts about the sort\<close>

lemma sort_keys_Inr:
  assumes "sort_keys es = Inr ks"
  shows "ks = map sort_key_of es"
  using assms
proof (induction es arbitrary: ks)
  case Nil
  then show ?case by simp
next
  case (Cons e es)
  then show ?case
    by (auto simp: sort_key_of_def entry_ts_def split: sum.splits option.splits)
qed

lemma insort_key_decorated:
  "insort_key fst (f x, x) (map (\<lambda>y. (f y, y)) ys) = map (\<lambda>y. (f y, y)) (insort_key f x ys)"
  by (induction ys) simp_all

lemma sort_key_decorated:
  "sort_key fst (zip (map f xs) xs) = map (\<lambda>y. (f y, y)) (sort_key f xs)"
  by (induction xs) (simp_all add: insort_key_decorated)

lemma sorted_entries_Inr:
  assumes "sorted_entries es = Inr ses"
  shows "ses = sort_key sort_key_of es"
proof -
  obtain ks where ks: "sort_keys es = Inr ks" and ses: "ses = map snd (sort_key fst (zip ks es))"
    using assms by (auto simp: sorted_entries_def split: sum.splits)
  have "ks = map sort_key_of es"
    using sort_keys_Inr [OF ks] .
  then show ?thesis
    using ses by (simp add: sort_key_decorated comp_def)
qed

section \<open>Facts about one feed's pass\<close>

lemma poll_feed_returns:
  assumes "1 \<le> max_response_length env"
  shows "\<exists>evs s'. poll_feed env s feed_url last_ts = Some (evs, s')"
proof (cases "bozo (parse env feed_url)")
  case True
  then show ?thesis by (simp add: poll_feed_def)
next
  case False
  show ?thesis
  proof (cases "sorted_entries (entries (parse env feed_url))")
    case (Inl err)
    then show ?thesis using False by (simp add: poll_feed_def)
  next
    case (Inr ses)
    obtain evs r where
      "process_new env (case feed_get_title (parse env feed_url) of None \<Rightarrow> feed_url | Some t \<Rightarrow> t)
         last_ts last_ts ses = Some (evs, r)"
      using process_new_returns [OF assms] by blast
    then show ?thesis
      using False Inr by (cases r) (auto simp: poll_feed_def Let_def split: sum.splits)
  qed
qed

text \<open>
  What a pass that returns has done: it parsed the feed; it processed entries of the
  sorted list with a known timestamp above the watermark, in the order of that list;
  and it left the store alone or wrote a watermark above the one it started from.
\<close>

lemma poll_feed_cases:
  assumes "poll_feed env s feed_url last_ts = Some (evs, s')"
  shows "\<exists>evs'. evs = Parse feed_url # evs' \<and>
           (evs' = [] \<and> s' = s \<or>
            (\<exists>ftitle r. process_new env ftitle last_ts last_ts
                 (sort_key sort_key_of (entries (parse env feed_url))) = Some (evs', r) \<and>
               (s' = s \<or> (\<exists>n. r = Inr n \<and> last_ts < n \<and> s' = hset_store s feed_url n))))"
proof (cases "bozo (parse env feed_url)")
  case True
  then show ?thesis using assms by (auto simp: poll_feed_def)
next
  case False
  show ?thesis
  proof (cases "sorted_entries (entries (parse env feed_url))")
    case (Inl err)
    then show ?thesis using assms False by (auto simp: poll_feed_def)
  next
    case (Inr ses)
    have ses: "ses = sort_key sort_key_of (entries (parse env feed_url))"
      using sorted_entries_Inr [OF Inr] .
    let ?ft = "case feed_get_title (parse env feed_url) of None \<Rightarrow> feed_url | Some t \<Rightarrow> t"
    obtain evs' r where pn: "process_new env ?ft last_ts last_ts ses = Some (evs', r)"
      using assms False Inr by (auto simp: poll_feed_def Let_def split: option.splits)
    have "evs = Parse feed_url # evs' \<and>
        (s' = s \<or> (\<exists>n. r = Inr n \<and> last_ts < n \<and> s' = hset_store s feed_url n))"
      using assms False Inr pn
      by (cases r) (auto simp: poll_feed_def Let_def hset_def split: if_splits)
    then show ?thesis
      using pn ses by blast
  qed
qed

lemma poll_feed_processed:
  assumes "poll_feed env s feed_url last_ts = Some (evs, s')"
  shows "set (processed evs) \<subseteq>
           {e \<in> set (entries (parse env feed_url)). \<exists>t. entry_ts e = Some t \<and> last_ts < t}"
    and "sorted_wrt ts_le (processed evs)"
proof -
  let ?es = "entries (parse env feed_url)"
  let ?new = "{e \<in> set ?es. \<exists>t. entry_ts e = Some t \<and> last_ts < t}"
  let ?by_key = "\<lambda>a b. sort_key_of a \<le> sort_key_of b"
  from poll_feed_cases [OF assms]
  obtain evs' where evs: "evs = Parse feed_url # evs'" and
    c: "evs' = [] \<or> (\<exists>ftitle r. process_new env ftitle last_ts last_ts
          (sort_key sort_key_of ?es) = Some (evs', r))"
    by blast
  have "set (processed evs') \<subseteq> ?new \<and> sorted_wrt ?by_key (processed evs')"
  proof (cases "evs' = []")
    case True
    then show ?thesis by simp
  next
    case False
    then obtain ftitle r where
      pn: "process_new env ftitle last_ts last_ts (sort_key sort_key_of ?es) = Some (evs', r)"
      using c by blast
    have "sorted_wrt ?by_key (sort_key sort_key_of ?es)"
      using sorted_sort_key [of sort_key_of ?es] by (simp add: sorted_map)
    then show ?thesis
      using process_new_processed [OF pn, of ?by_key] by auto
  qed
  then have sub: "set (processed evs) \<subseteq> ?new" and srt: "sorted_wrt ?by_key (processed evs)"
    using evs by simp_all
  show "set (processed evs) \<subseteq> ?new"
    by (rule sub)
  have "ts_le a b"
    if a: "a \<in> set (processed evs)" and b: "b \<in> set (processed evs)" and ab: "?by_key a b"
    for a b
  proof -
    obtain ta tb where "entry_ts a = Some ta" "entry_ts b = Some tb"
      using sub a b by blast
    then show ?thesis
      using ab by (simp add: ts_le_def sort_key_of_def)
  qed
  then show "sorted_wrt ts_le (processed evs)"
    using srt sorted_wrt_mono_rel [of "processed evs" ?by_key ts_le] by blast
qed


lemma poll_feed_parses:
  assumes "poll_feed env s feed_url last_ts = Some (evs, s')"
  shows "Parse feed_url \<in> set evs"
  using poll_feed_cases [OF assms] by auto

section \<open>Facts about the store\<close>

lemma map_of_hset_store: "map_of (hset_store s k v) = (map_of s)(k \<mapsto> v)"
  by (induction s k v rule: hset_store.induct) auto

lemma keys_hset_store:
  "map fst (hset_store s k v) = (if k \<in> set (map fst s) then map fst s else map fst s @ [k])"
  by (induction s k v rule: hset_store.induct) auto

lemma distinct_hset_store: "distinct (map fst s) \<Longrightarrow> distinct (map fst (hset_store s k v))"
  by (simp add: keys_hset_store)

lemma map_of_hdel: "map_of (filter (\<lambda>(k', v). k' \<noteq> k) s) = (map_of s)(k := None)"
  by (induction s) auto

section \<open>Facts about a cycle\<close>

lemma poll_items_returns:
  assumes "1 \<le> max_response_length env"
  shows "\<exists>evs s'. poll_items env s feeds = Some (evs, s')"
proof (induction feeds arbitrary: s)
  case Nil
  show ?case by simp
next
  case (Cons f feeds)
  obtain feed_url last_ts where f: "f = (feed_url, last_ts)" by (cases f)
  obtain evs s1 where 1: "poll_feed env s feed_url last_ts = Some (evs, s1)"
    using poll_feed_returns [OF assms] by blast
  obtain evs' s2 where 2: "poll_items env s1 feeds = Some (evs', s2)"
    using Cons by blast
  show ?case
    by (simp add: f 1 2)
qed

lemma poll_items_Cons:
  assumes "poll_items env s ((feed_url, last_ts) # feeds) = Some (evs, s')"
  obtains evs1 s1 evs2 where "poll_feed env s feed_url last_ts = Some (evs1, s1)"
    and "poll_items env s1 feeds = Some (evs2, s')" and "evs = evs1 @ evs2"
  using assms by (auto split: option.splits)


lemma poll_items_parses:
  assumes "poll_items env s feeds = Some (evs, s')"
  shows "\<forall>(feed_url, last_ts) \<in> set feeds. Parse feed_url \<in> set evs"
  using assms
proof (induction feeds arbitrary: s evs)
  case Nil
  then show ?case by simp
next
  case (Cons f feeds)
  obtain feed_url last_ts where f: "f = (feed_url, last_ts)" by (cases f)
  from Cons.prems obtain evs1 s1 evs2 where
    1: "poll_feed env s feed_url last_ts = Some (evs1, s1)" and
    2: "poll_items env s1 feeds = Some (evs2, s')" and evs: "evs = evs1 @ evs2"
    unfolding f by (rule poll_items_Cons)
  show ?case
    using poll_feed_parses [OF 1] Cons.IH [OF 2] f evs by auto
qed


section \<open>The examples, step by step\<close>

lemma parse_newsroom:
  "parse newsroom feed_url =
     feed_of [entry_at ''c'' 300, entry_at ''b'' 200, undated ''x'', entry_at ''a'' 100]"
  by (simp add: newsroom_def)

lemma newsroom_settings:
  "redis_up newsroom" "max_response_length newsroom = 1500" "now newsroom = 1000"
  by (simp_all add: newsroom_def quiet_def)

lemma sorted_entries_newsroom:
  "sorted_entries [entry_at ''c'' 300, entry_at ''b'' 200, undated ''x'', entry_at ''a'' 100] =
     Inr [undated ''x'', entry_at ''a'' 100, entry_at ''b'' 200, entry_at ''c'' 300]"
  by (simp add: sorted_entries_def entry_at_def undated_def)

lemma process_entry_newsroom_b:
  "process_entry newsroom (u ''f'') (entry_at ''b'' 200) =
     Some ([Fetch (u ''b''), Send (fallback_announcement ''f'' ''b'')], None)"
  apply (simp add: process_entry_def entry_announcement_def entry_title_def entry_link_def newsroom_def
      quiet_def entry_at_def
      entry_summary_def fetch_web_summary_def format_summary_for_discord_def u_def
      split_message_def announcement_def fallback_announcement_def)
  apply (subst split_loop.simps)
  apply (simp add: send_telegram_def send_discord_def)
  done

lemma process_entry_newsroom_c:
  "process_entry newsroom (u ''f'') (entry_at ''c'' 300) =
     Some ([Fetch (u ''c''), Send (fallback_announcement ''f'' ''c'')], None)"
  apply (simp add: process_entry_def entry_announcement_def entry_title_def entry_link_def newsroom_def
      quiet_def entry_at_def
      entry_summary_def fetch_web_summary_def format_summary_for_discord_def u_def
      split_message_def announcement_def fallback_announcement_def)
  apply (subst split_loop.simps)
  apply (simp add: send_telegram_def send_discord_def)
  done

lemma process_new_newsroom:
  "process_new newsroom (u ''f'') 100 100
     [undated ''x'', entry_at ''a'' 100, entry_at ''b'' 200, entry_at ''c'' 300] =
   Some ([Process_entry (u ''f'') (entry_at ''b'' 200), Fetch (u ''b''),
          Send (fallback_announcement ''f'' ''b''),
          Process_entry (u ''f'') (entry_at ''c'' 300), Fetch (u ''c''),
          Send (fallback_announcement ''f'' ''c'')], Inr 300)"
  using process_entry_newsroom_b process_entry_newsroom_c
  by (simp add: undated_def entry_at_def)

lemma poll_feed_newsroom:
  "poll_feed newsroom [(u ''f'', 100)] (u ''f'') 100 =
   Some ([Parse (u ''f''),
          Process_entry (u ''f'') (entry_at ''b'' 200), Fetch (u ''b''),
          Send (fallback_announcement ''f'' ''b''),
          Process_entry (u ''f'') (entry_at ''c'' 300), Fetch (u ''c''),
          Send (fallback_announcement ''f'' ''c'')], [(u ''f'', 300)])"
  by (simp add: poll_feed_def parse_newsroom newsroom_settings feed_of_def
      sorted_entries_newsroom process_new_newsroom hset_def Let_def del: process_new.simps)


lemma entry_ts_entry_at: "entry_ts (entry_at name t) = Some t"
  by (simp add: entry_ts_def entry_at_def)

lemma entry_ts_undated: "entry_ts (undated name) = None"
  by (simp add: entry_ts_def undated_def)

section \<open>Facts about add\_feed\<close>

lemma newest_Max:
  assumes "Some Bad_time \<notin> published_parsed ` set es"
  shows "newest a es = Inr (Max (set (a # timestamps es)))"
  using assms
proof (induction es arbitrary: a)
  case Nil
  then show ?case by (simp add: timestamps_def map_filter_simps)
next
  case (Cons e es)
  have rest: "Some Bad_time \<notin> published_parsed ` set es"
    using Cons.prems by auto
  show ?case
  proof (cases "published_parsed e")
    case None
    then have "timestamps (e # es) = timestamps es"
      by (simp add: timestamps_def map_filter_simps entry_ts_def)
    then show ?thesis
      using None Cons.IH [OF rest] by simp
  next
    case (Some tt)
    then obtain t where tt: "tt = Time_tuple t"
      using Cons.prems by (cases tt) auto
    have ts: "timestamps (e # es) = t # timestamps es"
      using Some tt by (simp add: timestamps_def map_filter_simps entry_ts_def)
    have "newest a (e # es) = newest (max a t) es"
      using Some tt by (simp add: max_def)
    also have "\<dots> = Inr (Max (set (max a t # timestamps es)))"
      using Cons.IH [OF rest] .
    also have "Max (set (max a t # timestamps es)) = Max (set (a # timestamps (e # es)))"
    proof (cases "timestamps es = []")
      case True
      then show ?thesis by (simp add: ts)
    next
      case False
      then show ?thesis by (simp add: ts max.assoc)
    qed
    finally show ?thesis .
  qed
qed

section \<open>Facts about the summary and the sinks\<close>

lemma format_fixed_texts:
  "format_summary_for_discord (u ''Could not retrieve a summary for this article.'') =
     u ''Could not retrieve a summary for this article.''"
  "format_summary_for_discord (u ''Failed to generate a summary from the article.'') =
     u ''Failed to generate a summary from the article.''"
  by (simp_all add: format_summary_for_discord_def u_def)

lemma entry_summary_no_article:
  assumes "fetch_web_summary env lnk = None \<or> fetch_web_summary env lnk = Some []"
  shows "entry_summary env lnk = ([Fetch lnk], u ''Could not retrieve a summary for this article.'')"
  using assms by (auto simp: entry_summary_def)

lemma entry_summary_answer:
  assumes "fetch_web_summary env lnk = Some article_text" and "article_text \<noteq> []"
    and "chat env (summarization_prompt article_text) = Inr content"
  shows "entry_summary env lnk =
     ([Fetch lnk, Chat (summarization_prompt article_text)],
      if strip content = [] then u ''Failed to generate a summary from the article.''
      else strip content)"
  using assms by (simp add: entry_summary_def)

lemma entry_summary_raises:
  assumes "fetch_web_summary env lnk = Some article_text" and "article_text \<noteq> []"
    and "chat env (summarization_prompt article_text) = Inl (Error msg)"
  shows "entry_summary env lnk =
     ([Fetch lnk, Chat (summarization_prompt article_text)], u ''Error summarizing article: '' @ msg)"
  using assms by (simp add: entry_summary_def)

lemma send_telegram_no_error:
  assumes "telegram_enabled env = Inr enabled" and "telegram_settings env = Inr st"
  shows "snd (send_telegram env ann) = None"
  using assms by (auto simp: send_telegram_def split: option.splits prod.splits)

lemma send_telegram_posts:
  assumes "telegram_enabled env = Inr True"
    and "telegram_settings env = Inr (Some bot_token, Some chat_id)"
    and "bot_token \<noteq> []" and "chat_id \<noteq> []"
  shows "send_telegram env ann = ([Post bot_token chat_id (telegram_markup env ann)], None)"
  using assms by (auto simp: send_telegram_def split: option.splits)

lemma send_discord_first:
  assumes "channel env"
  shows "Send chunk \<in> set (send_discord env (chunk # chunks))"
proof -
  obtain evs r where "send_chunks env (chunk # chunks) = (Send chunk # evs, r)"
    by (cases "channel_send env chunk"; cases "send_chunks env chunks") auto
  then show ?thesis
    using assms by (cases r) (simp_all add: send_discord_def)
qed

text \<open>The events of a feed's pass do not depend on the store.\<close>

lemma poll_feed_events:
  assumes "poll_feed env s feed_url last_ts = Some (evs, s')"
  shows "\<exists>s1. poll_feed env s0 feed_url last_ts = Some (evs, s1)"
  using assms
  by (auto simp: poll_feed_def Let_def hset_def
      split: if_splits sum.splits option.splits prod.splits)

lemma poll_items_passes:
  assumes "poll_items env s feeds = Some (evs, s')"
  shows "\<forall>(feed_url, last_ts) \<in> set feeds. \<exists>evs1 s1 before after.
           poll_feed env s0 feed_url last_ts = Some (evs1, s1) \<and> evs = before @ evs1 @ after"
  using assms
proof (induction feeds arbitrary: s evs)
  case Nil
  then show ?case by simp
next
  case (Cons f feeds)
  obtain feed_url last_ts where f: "f = (feed_url, last_ts)" by (cases f)
  from Cons.prems obtain evs1 s1 evs2 where
    1: "poll_feed env s feed_url last_ts = Some (evs1, s1)" and
    2: "poll_items env s1 feeds = Some (evs2, s')" and evs: "evs = evs1 @ evs2"
    unfolding f by (rule poll_items_Cons)
  obtain s1' where here: "poll_feed env s0 feed_url last_ts = Some (evs1, s1')"
    using poll_feed_events [OF 1] by blast
  have first: "\<exists>evs1 s1 before after.
      poll_feed env s0 feed_url last_ts = Some (evs1, s1) \<and> evs = before @ evs1 @ after"
    using here evs by (metis append_Nil)
  have "\<exists>evs1 s1 before after.
      poll_feed env s0 url w = Some (evs1, s1) \<and> evs = before @ evs1 @ after"
    if "(url, w) \<in> set feeds" for url w
  proof -
    from Cons.IH [OF 2] that obtain e1 t1 before after where
      "poll_feed env s0 url w = Some (e1, t1)" "evs2 = before @ e1 @ after"
      by blast
    then have "poll_feed env s0 url w = Some (e1, t1) \<and> evs = (evs1 @ before) @ e1 @ after"
      using evs by simp
    then show ?thesis by blast
  qed
  then show ?case
    using first f by auto
qed

section \<open>More examples, step by step\<close>

lemma fetch_story:
  "fetch_web_summary (browsing [Text (u ''story'')]) lnk = Some (u ''story'')"
  by (simp add: fetch_web_summary_def browsing_def quiet_def page_of_def get_text_def
      clean_lines_def splitlines_def strip_def lstrip_def rstrip_def isspace_def
      is_linebreak_def u_def)

lemma fetch_quiet: "fetch_web_summary quiet lnk = None"
  by (simp add: fetch_web_summary_def quiet_def)

lemma fetch_sidebar_page:
  "fetch_web_summary (browsing sidebar_page) lnk =
     Some (u ''Related links'' @ [10] @ u ''The story'')"
  by (simp add: fetch_web_summary_def browsing_def quiet_def page_of_def sidebar_page_def
      unwanted_def get_text_def clean_lines_def splitlines_def strip_def lstrip_def
      rstrip_def isspace_def is_linebreak_def u_def)

lemma web_search_fetch_sidebar_page:
  "web_search_fetch_web_summary (browsing sidebar_page) lnk = Some (u ''The story'')"
  by (simp add: web_search_fetch_web_summary_def browsing_def quiet_def page_of_def
      sidebar_page_def unwanted_def soup_find_def get_text_def clean_lines_def
      splitlines_def strip_def lstrip_def rstrip_def isspace_def is_linebreak_def
      split_ws_def u_def)

lemma process_entry_broken_sinks:
  assumes "length feed_title \<le> 100"
  shows "process_entry broken_sinks feed_title (entry_at ''a'' 200) =
     Some ([Fetch (u ''a''),
            Send (announcement feed_title (u ''a'') (u ''a'')
                    (u ''Could not retrieve a summary for this article.'')),
            Post (u ''token'') (u ''42'')
              (announcement feed_title (u ''a'') (u ''a'')
                 (u ''Could not retrieve a summary for this article.''))], None)"
proof -
  let ?ann = "announcement feed_title (u ''a'') (u ''a'')
      (u ''Could not retrieve a summary for this article.'')"
  have fetch: "fetch_web_summary broken_sinks (u ''a'') = None"
    by (simp add: fetch_web_summary_def broken_sinks_def quiet_def)
  have ann: "entry_announcement broken_sinks feed_title (entry_at ''a'' 200) =
      ([Fetch (u ''a'')], ?ann)"
    using entry_summary_no_article [of broken_sinks "u ''a''"] fetch
    by (simp add: entry_announcement_def entry_title_def entry_link_def entry_at_def
        format_fixed_texts)
  have "length ?ann \<le> 1500"
    using assms by (simp add: announcement_def u_def)
  then have split: "split_message ?ann (max_response_length broken_sinks) = Some [?ann]"
    by (subst split_message_def, subst split_loop.simps)
      (simp add: broken_sinks_def quiet_def)
  have tele: "send_telegram broken_sinks ?ann = ([Post (u ''token'') (u ''42'') ?ann], None)"
    by (simp add: send_telegram_def broken_sinks_def quiet_def u_def)
  have disc: "send_discord broken_sinks [?ann] = [Send ?ann]"
    by (simp add: send_discord_def broken_sinks_def quiet_def)
  show ?thesis
    by (simp add: process_entry_def ann split tele disc)
qed

lemma poll_feed_broken_sinks:
  assumes "length feed_url \<le> 100"
  shows "\<exists>evs. poll_feed broken_sinks s feed_url 100 =
           Some (Parse feed_url # Process_entry feed_url (entry_at ''a'' 200) # evs,
                 hset_store s feed_url 200) \<and> processed evs = []"
proof -
  have parse: "parse broken_sinks feed_url = feed_of [entry_at ''a'' 200]"
    by (simp add: broken_sinks_def)
  have srt: "sorted_entries [entry_at ''a'' 200] = Inr [entry_at ''a'' 200]"
    by (simp add: sorted_entries_def entry_at_def)
  have up: "redis_up broken_sinks"
    by (simp add: broken_sinks_def quiet_def)
  obtain evs where pe: "process_entry broken_sinks feed_url (entry_at ''a'' 200) = Some (evs, None)"
    and none: "processed evs = []"
    using process_entry_broken_sinks [OF assms] by simp
  have ts: "published_parsed (entry_at ''a'' 200) = Some (Time_tuple 200)"
    by (simp add: entry_at_def)
  have "process_new broken_sinks feed_url 100 100 [entry_at ''a'' 200] =
      Some (Process_entry feed_url (entry_at ''a'' 200) # evs, Inr 200)"
    by (simp add: ts pe)
  then have "poll_feed broken_sinks s feed_url 100 =
      Some (Parse feed_url # Process_entry feed_url (entry_at ''a'' 200) # evs,
            hset_store s feed_url 200)"
    by (simp add: poll_feed_def parse feed_of_def srt hset_def up del: process_new.simps)
  then show ?thesis
    using none by blast
qed

section \<open>Facts about words\<close>

lemma split_from_word:
  assumes "\<not> list_ex isspace w"
  shows "split_from cur (w @ rest) = split_from (cur @ w) rest"
  using assms by (induction w arbitrary: cur) simp_all

lemma split_from_words:
  assumes "\<not> list_ex isspace cur"
  shows "list_all (\<lambda>w. w \<noteq> [] \<and> \<not> list_ex isspace w) (split_from cur s)"
  using assms by (induction s arbitrary: cur) simp_all

lemma split_ws_words: "list_all (\<lambda>w. w \<noteq> [] \<and> \<not> list_ex isspace w) (split_ws s)"
  using split_from_words [of "[]" s] by (simp add: split_ws_def)

lemma split_ws_join:
  assumes "list_all (\<lambda>w. w \<noteq> [] \<and> \<not> list_ex isspace w) ws"
  shows "split_ws (join [32] ws) = ws"
  using assms
proof (induction ws rule: induct_list012)
  case 1
  then show ?case by (simp add: split_ws_def)
next
  case (2 x)
  then show ?case
    using split_from_word [of x "[]" "[]"] by (simp add: split_ws_def)
next
  case (3 x y ys)
  have x: "x \<noteq> []" "\<not> list_ex isspace x"
    using 3(3) by simp_all
  have "split_from [] (x @ 32 # join [32] (y # ys)) = split_from x (32 # join [32] (y # ys))"
    using split_from_word [OF x(2), of "[]"] by simp
  also have "\<dots> = x # split_from [] (join [32] (y # ys))"
    using x(1) by (simp add: isspace_def)
  also have "split_from [] (join [32] (y # ys)) = y # ys"
    using 3(2,3) by (simp add: split_ws_def)
  finally show ?case
    by (simp add: split_ws_def)
qed

lemma truncated_word_count:
  "length (split_ws (join [32] (take n (split_ws s)))) \<le> n"
proof -
  have "list_all (\<lambda>w. w \<noteq> [] \<and> \<not> list_ex isspace w) (take n (split_ws s))"
    using split_ws_words [of s] by (auto simp: list_all_iff dest: in_set_takeD)
  then show ?thesis
    by (simp add: split_ws_join)
qed

section \<open>Claims about split\_message\<close>

text \<open>
  C7. For every text and every chunk size \<open>n \<ge> 1\<close>, \<open>split_message\<close> returns, every
  chunk it returns has length at most \<open>n\<close>, and a text of length at most \<open>n\<close> comes
  back as exactly one chunk, the text itself.
\<close>

theorem split_message_chunk_lengths:
  assumes "1 \<le> n"
  shows "\<exists>cs. split_message s n = Some cs \<and> list_all (\<lambda>c. length c \<le> n) cs \<and>
           (length s \<le> n \<longrightarrow> cs = [s])"
proof -
  obtain cs where cs: "split_message s n = Some cs" "list_all (\<lambda>c. length c \<le> n) cs"
    "if length s \<le> n then cs = [s] else 2 \<le> length cs"
    using split_message_props [OF assms, of s] by blast
  from cs(3) have "length s \<le> n \<longrightarrow> cs = [s]"
    by (simp split: if_splits)
  with cs(1,2) show ?thesis by blast
qed

theorem split_message_chunk_lengths_witness:
  "split_message (u ''hi'') 4 = Some [u ''hi''] \<and>
   list_all (\<lambda>c. length c \<le> 3) [u ''abc'', u ''d'']"
proof -
  have "(1::nat) \<le> 4" by simp
  from split_message_chunk_lengths [OF this, of "u ''hi''"]
  have "split_message (u ''hi'') 4 = Some [u ''hi'']"
    by (auto simp: u_def)
  moreover have "(1::nat) \<le> 3" by simp
  from split_message_chunk_lengths [OF this, of "u ''abcd ''"]
  have "list_all (\<lambda>c. length c \<le> 3) [u ''abc'', u ''d'']"
    by (simp add: split_message_abcd)
  ultimately show ?thesis by blast
qed

text \<open>
  C10. For every text and every chunk size \<open>n \<ge> 1\<close>, the remainder gets strictly
  shorter in every iteration of the loop (the split point is positive, or the
  character at the split point is whitespace that \<open>strip\<close> removes), so
  \<open>split_message\<close> returns, and what it returns is a non-empty list of chunks.
\<close>

theorem split_message_terminates:
  assumes "1 \<le> n"
  shows "(n < length s \<longrightarrow> length (strip (drop (split_point s n) s)) < length s) \<and>
         (\<exists>cs. split_message s n = Some cs \<and> cs \<noteq> [])"
proof
  show "n < length s \<longrightarrow> length (strip (drop (split_point s n) s)) < length s"
    using remainder_shrinks [OF assms] by blast
  show "\<exists>cs. split_message s n = Some cs \<and> cs \<noteq> []"
    using split_message_props [OF assms, of s] by blast
qed

theorem split_message_terminates_witness:
  "split_point (u '' abcdefg'') 3 = 0 \<and>
   length (strip (drop 0 (u '' abcdefg''))) < length (u '' abcdefg'') \<and>
   split_message (u '' abcdefg'') 3 = Some [[], u ''abc'', u ''def'', u ''g'']"
proof -
  have "(1::nat) \<le> 3" by simp
  from split_message_terminates [OF this, of "u '' abcdefg''"]
  show ?thesis
    by (simp add: split_message_leading_space) (simp add: u_def)
qed

text \<open>
  C8, as the specification states it: for every text and every chunk size
  \<open>n \<ge> 1\<close>, the chunks give the text back when only the leading whitespace trimmed
  from the remainder at each split is ignored. The source trims a remainder with
  \<open>strip\<close>, which removes trailing whitespace too, so the whitespace that ends a
  text is lost: the statement fails for the text \<open>abcd\<close> followed by a space,
  with \<open>n = 3\<close>.
\<close>

theorem split_message_lstrip_counterexample:
  "split_message (u ''abcd '') 3 = Some [u ''abc'', u ''d''] \<and>
   \<not> rejoins lstrip [u ''abc'', u ''d''] (u ''abcd '')"
  by (simp add: split_message_abcd) (simp add: u_def lstrip_def isspace_def)

text \<open>
  C8, amended: for every text and every chunk size \<open>n \<ge> 1\<close>, the chunks give the
  text back when the whitespace trimmed from both ends of the remainder at each
  split is ignored: reading the text chunk by chunk and trimming what is left with
  \<open>strip\<close> after each chunk ends exactly at the last chunk, and the text is the
  chunks in order with a run of whitespace (possibly empty) after each of them.
\<close>

theorem split_message_rejoins:
  assumes "1 \<le> n"
  shows "\<exists>cs. split_message s n = Some cs \<and> rejoins strip cs s \<and>
           (\<exists>gs. length gs = length cs \<and> list_all (list_all isspace) gs \<and>
                 s = concat (map2 (@) cs gs))"
  using split_message_props [OF assms, of s] by blast

theorem split_message_rejoins_witness:
  "rejoins strip [u ''abc'', u ''d''] (u ''abcd '') \<and>
   (\<exists>gs. length gs = 2 \<and> list_all (list_all isspace) gs \<and>
         u ''abcd '' = concat (map2 (@) [u ''abc'', u ''d''] gs))"
proof -
  have "(1::nat) \<le> 3" by simp
  from split_message_rejoins [OF this, of "u ''abcd ''"]
  show ?thesis
    by (simp add: split_message_abcd numeral_2_eq_2)
qed

section \<open>Claims about the poll cycle and the store\<close>



text \<open>
  C4. For every feed and every poll cycle, the entries of the feed's pass are
  processed in non-decreasing order of published timestamp: whenever an entry is
  passed to \<open>process_entry\<close> before another one in the same pass, both timestamps are
  known and the first is at most the second.
\<close>

theorem poll_feed_chronological:
  assumes "1 \<le> max_response_length env"
  shows "\<exists>evs s'. poll_feed env s feed_url last_ts = Some (evs, s') \<and>
           sorted_wrt ts_le (processed evs)"
proof -
  obtain evs s' where run: "poll_feed env s feed_url last_ts = Some (evs, s')"
    using poll_feed_returns [OF assms] by blast
  from poll_feed_processed(2) [OF run] run show ?thesis
    by blast
qed

theorem poll_feed_chronological_witness:
  "\<exists>evs s'. poll_feed newsroom [(u ''f'', 100)] (u ''f'') 100 = Some (evs, s') \<and>
     processed evs = [entry_at ''b'' 200, entry_at ''c'' 300] \<and>
     ts_le (entry_at ''b'' 200) (entry_at ''c'' 300)"
proof -
  have "1 \<le> max_response_length newsroom"
    by (simp add: newsroom_settings)
  from poll_feed_chronological [OF this, of "[(u ''f'', 100)]" "u ''f''" 100]
  obtain evs s' where run: "poll_feed newsroom [(u ''f'', 100)] (u ''f'') 100 = Some (evs, s')"
    and ordered: "sorted_wrt ts_le (processed evs)"
    by blast
  have p: "processed evs = [entry_at ''b'' 200, entry_at ''c'' 300]"
    using run by (auto simp: poll_feed_newsroom)
  then have "ts_le (entry_at ''b'' 200) (entry_at ''c'' 300)"
    using ordered by simp
  then show ?thesis
    using run p by blast
qed




text \<open>
  C3, as the specification states it: for every feed whose document parses,
  \<open>add_feed\<close> returns true and stores the maximum published timestamp of the feed's
  entries, or the current time if the feed has no entries with timestamps. The
  source takes the current time only when the feed has no entries at all: for a
  feed whose only entry has no date it stores 0, not the current time 1000.
\<close>

theorem add_feed_undated_counterexample:
  "now undated_feed = 1000 \<and>
   add_feed undated_feed [] (u ''f'') = (Inr True, [(u ''f'', 0)])"
  by (simp add: add_feed_def undated_feed_def quiet_def feed_of_def hset_def undated_def)

text \<open>
  C3, amended: for every feed whose document parses, whose entries' dates all
  convert, and with a store that accepts the write, \<open>add_feed\<close> returns true and
  stores as the feed's watermark: the current time if the feed has no entries;
  otherwise the maximum of 0 and the published timestamps of its entries, which
  is the maximum published timestamp when some entry has a timestamp that is not
  negative, and 0 when no entry has a timestamp.
\<close>

theorem add_feed_initial_watermark:
  assumes "\<not> bozo (parse env feed_url)" and "redis_up env"
    and "Some Bad_time \<notin> published_parsed ` set (entries (parse env feed_url))"
  shows "\<exists>w. add_feed env s feed_url = (Inr True, hset_store s feed_url w) \<and>
           map_of (hset_store s feed_url w) feed_url = Some w \<and>
           w = (if entries (parse env feed_url) = [] then now env
                else Max (set (0 # timestamps (entries (parse env feed_url))))) \<and>
           (entries (parse env feed_url) \<noteq> [] \<and>
            (\<exists>t \<in> set (timestamps (entries (parse env feed_url))). 0 \<le> t) \<longrightarrow>
              w = Max (set (timestamps (entries (parse env feed_url))))) \<and>
           (entries (parse env feed_url) \<noteq> [] \<and> timestamps (entries (parse env feed_url)) = []
              \<longrightarrow> w = 0)"
proof -
  let ?es = "entries (parse env feed_url)"
  let ?w = "if ?es = [] then now env else Max (set (0 # timestamps ?es))"
  have "add_feed env s feed_url = (Inr True, hset_store s feed_url ?w)"
    using assms(1,2) newest_Max [OF assms(3), of 0]
    by (simp add: add_feed_def Let_def hset_def)
  moreover have "map_of (hset_store s feed_url ?w) feed_url = Some ?w"
    by (simp add: map_of_hset_store)
  moreover have "?w = Max (set (timestamps ?es))"
    if some: "?es \<noteq> []" and pos: "\<exists>t \<in> set (timestamps ?es). 0 \<le> t"
  proof -
    obtain t where t: "t \<in> set (timestamps ?es)" "0 \<le> t"
      using pos by blast
    then have "t \<le> Max (set (timestamps ?es))"
      by simp
    then have "max 0 (Max (set (timestamps ?es))) = Max (set (timestamps ?es))"
      using t(2) by simp
    moreover have "set (timestamps ?es) \<noteq> {}"
      using t(1) by auto
    ultimately show ?thesis
      using some by simp
  qed
  moreover have "?w = 0" if "?es \<noteq> [] \<and> timestamps ?es = []"
    using that by simp
  ultimately show ?thesis
    by blast
qed

theorem add_feed_initial_watermark_witness:
  "add_feed newsroom [] (u ''f'') = (Inr True, [(u ''f'', 300)]) \<and>
   timestamps (entries (parse newsroom (u ''f''))) = [300, 200, 100]"
proof -
  have ts: "timestamps (entries (parse newsroom (u ''f''))) = [300, 200, 100]"
    by (simp add: parse_newsroom feed_of_def timestamps_def map_filter_simps
        entry_ts_entry_at entry_ts_undated)
  have 1: "\<not> bozo (parse newsroom (u ''f''))"
    by (simp add: parse_newsroom feed_of_def)
  have 2: "redis_up newsroom"
    by (simp add: newsroom_settings)
  have 3: "Some Bad_time \<notin> published_parsed ` set (entries (parse newsroom (u ''f'')))"
    by (simp add: parse_newsroom feed_of_def entry_at_def undated_def)
  from add_feed_initial_watermark [OF 1 2 3, of "[]"]
  obtain w where "add_feed newsroom [] (u ''f'') = (Inr True, hset_store [] (u ''f'') w)"
    and "w = (if entries (parse newsroom (u ''f'')) = [] then now newsroom
           else Max (set (0 # timestamps (entries (parse newsroom (u ''f''))))))"
    by blast
  then have "add_feed newsroom [] (u ''f'') = (Inr True, [(u ''f'', 300)])"
    by (simp add: ts) (simp add: parse_newsroom feed_of_def)
  then show ?thesis
    using ts by simp
qed

section \<open>Claims about process\_entry and the extractor\<close>

text \<open>
  C5, as the specification states it: when the summarizer is invoked and raises, a
  fixed failure string is used. The source puts the exception's message into the
  text, so the text is not fixed: two exceptions give two texts.
\<close>

theorem summarizer_exception_text_counterexample:
  "snd (entry_summary (failing_summarizer ''timed out'') (u ''l'')) =
     u ''Error summarizing article: timed out'' \<and>
   snd (entry_summary (failing_summarizer ''refused'') (u ''l'')) =
     u ''Error summarizing article: refused''"
proof -
  have "snd (entry_summary (failing_summarizer msg) (u ''l'')) =
      u ''Error summarizing article: '' @ u msg" for msg
  proof -
    have "fetch_web_summary (failing_summarizer msg) (u ''l'') = Some (u ''story'')"
      using fetch_story [of "u ''l''"]
      by (simp add: failing_summarizer_def fetch_web_summary_def)
    moreover have "u ''story'' \<noteq> []"
      by (simp add: u_def)
    moreover have "chat (failing_summarizer msg) (summarization_prompt (u ''story'')) =
        Inl (Error (u msg))"
      by (simp add: failing_summarizer_def)
    ultimately show ?thesis
      using entry_summary_raises by simp
  qed
  then show ?thesis
    by (simp add: u_def)
qed

text \<open>
  C5, amended: for every processed entry, the summary text placed in the
  announcement's body is selected as follows. If extraction returns null (or an
  empty text), the fixed text "Could not retrieve a summary for this article." is
  used and the summarizer is never invoked. If the summarizer is invoked and its
  answer is empty once stripped, the fixed text "Failed to generate a summary from
  the article." is used. If it raises, the text is "Error summarizing article: "
  followed by the exception's message. Otherwise the text is the summarizer's
  answer, stripped. The last two go through \<open>format_summary_for_discord\<close> on their
  way into the body.
\<close>

theorem summary_selection:
  "(fetch_web_summary env (entry_link e) = None \<or>
    fetch_web_summary env (entry_link e) = Some [] \<longrightarrow>
      entry_announcement env feed_title e =
        ([Fetch (entry_link e)],
         announcement feed_title (entry_title e) (entry_link e)
           (u ''Could not retrieve a summary for this article.''))) \<and>
   (\<forall>article_text.
      fetch_web_summary env (entry_link e) = Some article_text \<and> article_text \<noteq> [] \<longrightarrow>
        fst (entry_announcement env feed_title e) =
          [Fetch (entry_link e), Chat (summarization_prompt article_text)] \<and>
        (\<forall>content. chat env (summarization_prompt article_text) = Inr content \<longrightarrow>
           snd (entry_announcement env feed_title e) =
             announcement feed_title (entry_title e) (entry_link e)
               (if strip content = []
                then u ''Failed to generate a summary from the article.''
                else format_summary_for_discord (strip content))) \<and>
        (\<forall>msg. chat env (summarization_prompt article_text) = Inl (Error msg) \<longrightarrow>
           snd (entry_announcement env feed_title e) =
             announcement feed_title (entry_title e) (entry_link e)
               (format_summary_for_discord (u ''Error summarizing article: '' @ msg))))"
proof (intro conjI allI impI)
  assume "fetch_web_summary env (entry_link e) = None \<or>
    fetch_web_summary env (entry_link e) = Some []"
  from entry_summary_no_article [OF this]
  show "entry_announcement env feed_title e =
      ([Fetch (entry_link e)],
       announcement feed_title (entry_title e) (entry_link e)
         (u ''Could not retrieve a summary for this article.''))"
    by (simp add: entry_announcement_def format_fixed_texts)
next
  fix article_text
  assume a: "fetch_web_summary env (entry_link e) = Some article_text \<and> article_text \<noteq> []"
  show "fst (entry_announcement env feed_title e) =
      [Fetch (entry_link e), Chat (summarization_prompt article_text)]"
  proof (cases "chat env (summarization_prompt article_text)")
    case (Inl err)
    then obtain msg where "chat env (summarization_prompt article_text) = Inl (Error msg)"
      by (cases err) simp
    with a entry_summary_raises [of env "entry_link e" article_text msg]
    show ?thesis
      by (simp add: entry_announcement_def)
  next
    case (Inr content)
    with a entry_summary_answer [of env "entry_link e" article_text content]
    show ?thesis
      by (simp add: entry_announcement_def)
  qed
next
  fix article_text content
  assume a: "fetch_web_summary env (entry_link e) = Some article_text \<and> article_text \<noteq> []"
    and c: "chat env (summarization_prompt article_text) = Inr content"
  with entry_summary_answer [of env "entry_link e" article_text content]
  show "snd (entry_announcement env feed_title e) =
      announcement feed_title (entry_title e) (entry_link e)
        (if strip content = []
         then u ''Failed to generate a summary from the article.''
         else format_summary_for_discord (strip content))"
    by (simp add: entry_announcement_def format_fixed_texts)
next
  fix article_text msg
  assume a: "fetch_web_summary env (entry_link e) = Some article_text \<and> article_text \<noteq> []"
    and c: "chat env (summarization_prompt article_text) = Inl (Error msg)"
  with entry_summary_raises [of env "entry_link e" article_text msg]
  show "snd (entry_announcement env feed_title e) =
      announcement feed_title (entry_title e) (entry_link e)
        (format_summary_for_discord (u ''Error summarizing article: '' @ msg))"
    by (simp add: entry_announcement_def)
qed

theorem summary_selection_witness:
  "entry_announcement quiet (u ''f'') (entry_at ''l'' 1) =
     ([Fetch (u ''l'')],
      announcement (u ''f'') (u ''l'') (u ''l'')
        (u ''Could not retrieve a summary for this article.'')) \<and>
   snd (entry_announcement
          ((browsing [Text (u ''story'')])\<lparr>chat := (\<lambda>prompt. Inr (u '' ### News ''))\<rparr>)
          (u ''f'') (entry_at ''l'' 1)) =
     announcement (u ''f'') (u ''l'') (u ''l'') (u ''# News'') \<and>
   snd (entry_announcement
          ((browsing [Text (u ''story'')])\<lparr>chat := (\<lambda>prompt. Inr (u ''  ''))\<rparr>)
          (u ''f'') (entry_at ''l'' 1)) =
     announcement (u ''f'') (u ''l'') (u ''l'')
       (u ''Failed to generate a summary from the article.'') \<and>
   snd (entry_announcement (failing_summarizer ''refused'') (u ''f'') (entry_at ''l'' 1)) =
     announcement (u ''f'') (u ''l'') (u ''l'') (u ''Error summarizing article: refused'')"
proof -
  have l: "entry_link (entry_at ''l'' 1) = u ''l''" "entry_title (entry_at ''l'' 1) = u ''l''"
    by (simp_all add: entry_link_def entry_title_def entry_at_def)
  have story: "u ''story'' \<noteq> []"
    by (simp add: u_def)
  have 1: "entry_announcement quiet (u ''f'') (entry_at ''l'' 1) =
     ([Fetch (u ''l'')],
      announcement (u ''f'') (u ''l'') (u ''l'')
        (u ''Could not retrieve a summary for this article.''))"
    using summary_selection [of quiet "entry_at ''l'' 1" "u ''f''"] fetch_quiet [of "u ''l''"]
    by (simp add: l)
  let ?news = "(browsing [Text (u ''story'')])\<lparr>chat := (\<lambda>prompt. Inr (u '' ### News ''))\<rparr>"
  have "fetch_web_summary ?news (u ''l'') = Some (u ''story'')"
    using fetch_story [of "u ''l''"] by (simp add: fetch_web_summary_def)
  then have 2: "snd (entry_announcement ?news (u ''f'') (entry_at ''l'' 1)) =
      announcement (u ''f'') (u ''l'') (u ''l'') (u ''# News'')"
    using summary_selection [of ?news "entry_at ''l'' 1" "u ''f''"] story
    by (simp add: l)
      (simp add: strip_def lstrip_def rstrip_def isspace_def format_summary_for_discord_def u_def)
  let ?blank = "(browsing [Text (u ''story'')])\<lparr>chat := (\<lambda>prompt. Inr (u ''  ''))\<rparr>"
  have "fetch_web_summary ?blank (u ''l'') = Some (u ''story'')"
    using fetch_story [of "u ''l''"] by (simp add: fetch_web_summary_def)
  then have 3: "snd (entry_announcement ?blank (u ''f'') (entry_at ''l'' 1)) =
      announcement (u ''f'') (u ''l'') (u ''l'')
        (u ''Failed to generate a summary from the article.'')"
    using summary_selection [of ?blank "entry_at ''l'' 1" "u ''f''"] story
    by (simp add: l) (simp add: strip_def lstrip_def rstrip_def isspace_def u_def)
  have "fetch_web_summary (failing_summarizer ''refused'') (u ''l'') = Some (u ''story'')"
    using fetch_story [of "u ''l''"] by (simp add: failing_summarizer_def fetch_web_summary_def)
  moreover have "chat (failing_summarizer ''refused'') (summarization_prompt (u ''story'')) =
      Inl (Error (u ''refused''))"
    by (simp add: failing_summarizer_def)
  ultimately have 4: "snd (entry_announcement (failing_summarizer ''refused'') (u ''f'')
        (entry_at ''l'' 1)) =
      announcement (u ''f'') (u ''l'') (u ''l'') (u ''Error summarizing article: refused'')"
    using summary_selection [of "failing_summarizer ''refused''" "entry_at ''l'' 1" "u ''f''"]
      story
    by (simp add: l) (simp add: format_summary_for_discord_def u_def)
  from 1 2 3 4 show ?thesis
    by blast
qed

text \<open>
  C9. For every announcement, an exception raised while sending to one sink (the
  channel or Telegram) is caught inside the delivery step. Whatever
  \<open>channel_send\<close> and \<open>requests_post\<close> do, when the look-ups of the Telegram
  configuration return: \<open>process_entry\<close> returns without an exception; if the
  channel exists, the send of the first chunk is attempted; if Telegram is enabled
  and configured, the post is attempted; and a cycle contains the whole pass of
  every watched feed, so later feeds are still processed.
\<close>

theorem sink_failures_are_contained:
  assumes "1 \<le> max_response_length env"
    and "telegram_enabled env = Inr enabled"
    and "telegram_settings env = Inr (bot_token, chat_id)"
  shows "(\<exists>evs chunk chunks.
            process_entry env feed_title e = Some (evs, None) \<and>
            split_message (snd (entry_announcement env feed_title e)) (max_response_length env) =
              Some (chunk # chunks) \<and>
            (channel env \<longrightarrow> Send chunk \<in> set evs) \<and>
            (\<forall>tok cid. enabled \<and> bot_token = Some tok \<and> chat_id = Some cid \<and>
                 tok \<noteq> [] \<and> cid \<noteq> [] \<longrightarrow>
               Post tok cid (telegram_markup env (snd (entry_announcement env feed_title e)))
                 \<in> set evs)) \<and>
         (\<exists>evs s'. poll_cycle env s = Some (evs, s') \<and>
            (\<forall>(feed_url, last_ts) \<in> set (get_feeds env s). \<exists>evs1 s1 before after.
               poll_feed env s feed_url last_ts = Some (evs1, s1) \<and>
               evs = before @ evs1 @ after))"
proof
  obtain evs1 ann where a: "entry_announcement env feed_title e = (evs1, ann)"
    by (cases "entry_announcement env feed_title e")
  obtain chunks0 where c: "split_message ann (max_response_length env) = Some chunks0"
    and ne: "chunks0 \<noteq> []"
    using split_message_props [OF assms(1), of ann] by blast
  obtain chunk chunks where cs: "chunks0 = chunk # chunks"
    using ne by (cases chunks0) auto
  obtain tevs r where t: "send_telegram env ann = (tevs, r)"
    by (cases "send_telegram env ann")
  have r: "r = None"
    using send_telegram_no_error [OF assms(2,3), of ann] t by simp
  let ?evs = "evs1 @ send_discord env (chunk # chunks) @ tevs"
  have run: "process_entry env feed_title e = Some (?evs, None)"
    by (simp add: process_entry_def a c cs t r)
  have disc: "channel env \<longrightarrow> Send chunk \<in> set ?evs"
    using send_discord_first [of env chunk chunks] by simp
  have tele: "Post tok cid (telegram_markup env ann) \<in> set ?evs"
    if "enabled \<and> bot_token = Some tok \<and> chat_id = Some cid \<and> tok \<noteq> [] \<and> cid \<noteq> []"
    for tok cid
  proof -
    have "send_telegram env ann = ([Post tok cid (telegram_markup env ann)], None)"
      using send_telegram_posts [of env tok cid ann] assms(2,3) that by simp
    then show ?thesis
      using t by simp
  qed
  show "\<exists>evs chunk chunks.
      process_entry env feed_title e = Some (evs, None) \<and>
      split_message (snd (entry_announcement env feed_title e)) (max_response_length env) =
        Some (chunk # chunks) \<and>
      (channel env \<longrightarrow> Send chunk \<in> set evs) \<and>
      (\<forall>tok cid. enabled \<and> bot_token = Some tok \<and> chat_id = Some cid \<and>
           tok \<noteq> [] \<and> cid \<noteq> [] \<longrightarrow>
         Post tok cid (telegram_markup env (snd (entry_announcement env feed_title e)))
           \<in> set evs)"
    using run c cs disc tele by (intro exI [of _ ?evs] exI [of _ chunk] exI [of _ chunks])
      (simp add: a)
next
  obtain evs s' where run: "poll_items env s (get_feeds env s) = Some (evs, s')"
    using poll_items_returns [OF assms(1)] by blast
  from poll_items_passes [OF run, of s] run
  show "\<exists>evs s'. poll_cycle env s = Some (evs, s') \<and>
      (\<forall>(feed_url, last_ts) \<in> set (get_feeds env s). \<exists>evs1 s1 before after.
         poll_feed env s feed_url last_ts = Some (evs1, s1) \<and> evs = before @ evs1 @ after)"
    by (simp add: poll_cycle_def)
qed

theorem sink_failures_are_contained_witness:
  "channel_send broken_sinks (fallback_announcement ''f'' ''a'') = Some (Error (u ''Forbidden'')) \<and>
   requests_post broken_sinks (u ''token'') (u ''42'') (fallback_announcement ''f'' ''a'') =
     Some (Error (u ''timed out'')) \<and>
   (\<exists>evs. process_entry broken_sinks (u ''f'') (entry_at ''a'' 200) = Some (evs, None) \<and>
      Send (fallback_announcement ''f'' ''a'') \<in> set evs \<and>
      Post (u ''token'') (u ''42'') (fallback_announcement ''f'' ''a'') \<in> set evs) \<and>
   (\<exists>evs s'. poll_cycle broken_sinks [(u ''f'', 100), (u ''g'', 100)] = Some (evs, s') \<and>
      Process_entry (u ''f'') (entry_at ''a'' 200) \<in> set evs \<and>
      Process_entry (u ''g'') (entry_at ''a'' 200) \<in> set evs)"
proof -
  have 1: "1 \<le> max_response_length broken_sinks"
    by (simp add: broken_sinks_def quiet_def)
  have 2: "telegram_enabled broken_sinks = Inr True"
    by (simp add: broken_sinks_def)
  have 3: "telegram_settings broken_sinks = Inr (Some (u ''token''), Some (u ''42''))"
    by (simp add: broken_sinks_def)
  have up: "get_feeds broken_sinks s = s" for s
    by (simp add: get_feeds_def broken_sinks_def quiet_def)
  have len: "length (u ''f'') \<le> 100" "length (u ''g'') \<le> 100"
    by (simp_all add: u_def)
  from sink_failures_are_contained [OF 1 2 3, of "u ''f''" "entry_at ''a'' 200"
      "[(u ''f'', 100), (u ''g'', 100)]"]
  obtain evs chunk chunks cevs s' where
    pe: "process_entry broken_sinks (u ''f'') (entry_at ''a'' 200) = Some (evs, None)" and
    cycle: "poll_cycle broken_sinks [(u ''f'', 100), (u ''g'', 100)] = Some (cevs, s')" and
    passes: "\<forall>(feed_url, last_ts) \<in> set (get_feeds broken_sinks [(u ''f'', 100), (u ''g'', 100)]).
       \<exists>evs1 s1 before after.
         poll_feed broken_sinks [(u ''f'', 100), (u ''g'', 100)] feed_url last_ts = Some (evs1, s1) \<and>
         cevs = before @ evs1 @ after"
    by blast
  have sinks: "Send (fallback_announcement ''f'' ''a'') \<in> set evs \<and>
      Post (u ''token'') (u ''42'') (fallback_announcement ''f'' ''a'') \<in> set evs"
    using pe process_entry_broken_sinks [OF len(1)]
    by (auto simp: fallback_announcement_def)
  have "Process_entry url (entry_at ''a'' 200) \<in> set cevs"
    if "url = u ''f'' \<or> url = u ''g''" for url
  proof -
    have "(url, 100) \<in> set (get_feeds broken_sinks [(u ''f'', 100), (u ''g'', 100)])"
      using that by (auto simp: up)
    with passes obtain evs1 s1 before after where
      p: "poll_feed broken_sinks [(u ''f'', 100), (u ''g'', 100)] url 100 = Some (evs1, s1)"
      and c: "cevs = before @ evs1 @ after"
      by blast
    have "length url \<le> 100"
      using that len by auto
    from poll_feed_broken_sinks [OF this, of "[(u ''f'', 100), (u ''g'', 100)]"] p
    have "Process_entry url (entry_at ''a'' 200) \<in> set evs1"
      by auto
    then show ?thesis
      using c by simp
  qed
  then have "Process_entry (u ''f'') (entry_at ''a'' 200) \<in> set cevs \<and>
      Process_entry (u ''g'') (entry_at ''a'' 200) \<in> set cevs"
    by simp
  moreover have "channel_send broken_sinks (fallback_announcement ''f'' ''a'') =
      Some (Error (u ''Forbidden''))"
    by (simp add: broken_sinks_def)
  moreover have "requests_post broken_sinks (u ''token'') (u ''42'')
      (fallback_announcement ''f'' ''a'') = Some (Error (u ''timed out''))"
    by (simp add: broken_sinks_def)
  ultimately show ?thesis
    using pe sinks cycle by blast
qed

text \<open>
  C6. For every page that is fetched and parsed, the extractor takes its text from
  the first container among \<open>article\<close>, \<open>main\<close> and \<open>body\<close>, after the unwanted
  elements are removed, and truncates it to the maximum word count. The extractor
  of the web search plug-in does; the extractor of rss.py, which \<open>process_entry\<close>
  calls, takes the text of the whole document and never truncates: for a page with
  a block of links beside its article, it returns the links with the story, where
  the plug-in's extractor returns the story.
\<close>

theorem fetch_web_summary_takes_whole_document:
  "fetch_web_summary (browsing sidebar_page) (u ''l'') =
     Some (u ''Related links'' @ [10] @ u ''The story'') \<and>
   web_search_fetch_web_summary (browsing sidebar_page) (u ''l'') = Some (u ''The story'')"
  by (simp add: fetch_sidebar_page web_search_fetch_sidebar_page)

section \<open>Further properties\<close>

text \<open>
  X1. Whenever the extractor of the web search plug-in returns a text, the page was
  answered with status 200, the text is taken from the first element found among
  \<open>article\<close>, \<open>main\<close> and \<open>body\<close> after the unwanted elements are removed, it is that
  container's cleaned text or its first 3000 words joined by spaces, and it has at
  most 3000 words.
\<close>

theorem web_search_fetch_web_summary_capped:
  assumes "web_search_fetch_web_summary env webpage_url = Some r"
  shows "length (split_ws r) \<le> 3000 \<and>
         (\<exists>resp c. http_get env webpage_url = Inr resp \<and> status_code resp = 200 \<and>
            List.find (\<lambda>x. x \<noteq> None)
              (map (\<lambda>name. soup_find name
                      (concat (map (decompose unwanted) (document resp))))
                 [''article'', ''main'', ''body'']) = Some (Some c) \<and>
            (r = clean_lines (get_text [10] [c]) \<or>
             r = join [32] (take 3000 (split_ws (clean_lines (get_text [10] [c]))))))"
proof -
  obtain resp where resp: "http_get env webpage_url = Inr resp" "status_code resp = 200"
    using assms by (auto simp: web_search_fetch_web_summary_def split: sum.splits if_splits)
  let ?soup = "concat (map (decompose unwanted) (document resp))"
  let ?container = "case soup_find ''article'' ?soup of Some a \<Rightarrow> Some a
    | None \<Rightarrow> (case soup_find ''main'' ?soup of Some m \<Rightarrow> Some m
       | None \<Rightarrow> soup_find ''body'' ?soup)"
  obtain c where c: "?container = Some c"
    using assms resp
    by (cases ?container) (simp_all add: web_search_fetch_web_summary_def Let_def)
  let ?text = "clean_lines (get_text [10] [c])"
  have r: "r = (if length (split_ws ?text) > 3000 then join [32] (take 3000 (split_ws ?text))
      else ?text)"
    using assms resp c by (simp add: web_search_fetch_web_summary_def Let_def)
  have "length (split_ws r) \<le> 3000"
    using r truncated_word_count [of 3000 ?text] by (simp split: if_splits)
  moreover have "List.find (\<lambda>x. x \<noteq> None)
      (map (\<lambda>name. soup_find name ?soup) [''article'', ''main'', ''body'']) = Some (Some c)"
    using c by (auto split: option.splits)
  moreover have "r = ?text \<or> r = join [32] (take 3000 (split_ws ?text))"
    using r by (simp split: if_splits)
  ultimately show ?thesis
    using resp by blast
qed

theorem web_search_fetch_web_summary_capped_witness:
  "web_search_fetch_web_summary (browsing sidebar_page) (u ''l'') = Some (u ''The story'') \<and>
   length (split_ws (u ''The story'')) \<le> 3000"
proof -
  have r: "web_search_fetch_web_summary (browsing sidebar_page) (u ''l'') = Some (u ''The story'')"
    by (rule web_search_fetch_sidebar_page)
  from web_search_fetch_web_summary_capped [OF r] r show ?thesis
    by simp
qed

text \<open>
  X2. The scenario of the specification: a feed with entries at times 100 and 200
  and the watermark 100. One cycle announces the entry of time 200 only, and the
  watermark becomes 200.
\<close>

theorem poll_cycle_scenario:
  "poll_cycle two_entries [(u ''f'', 100)] =
     Some ([Parse (u ''f''), Process_entry (u ''f'') (entry_at ''b'' 200), Fetch (u ''b''),
            Send (fallback_announcement ''f'' ''b'')],
           [(u ''f'', 200)])"
proof -
  have parse: "parse two_entries feed_url = feed_of [entry_at ''b'' 200, entry_at ''a'' 100]"
    for feed_url
    by (simp add: two_entries_def)
  have settings: "redis_up two_entries"
    by (simp add: two_entries_def quiet_def)
  have srt: "sorted_entries [entry_at ''b'' 200, entry_at ''a'' 100] =
      Inr [entry_at ''a'' 100, entry_at ''b'' 200]"
    by (simp add: sorted_entries_def entry_at_def)
  have pe: "process_entry two_entries (u ''f'') (entry_at ''b'' 200) =
      Some ([Fetch (u ''b''), Send (fallback_announcement ''f'' ''b'')], None)"
    apply (simp add: process_entry_def entry_announcement_def entry_title_def entry_link_def
        two_entries_def quiet_def entry_at_def entry_summary_def fetch_web_summary_def
        format_summary_for_discord_def u_def split_message_def announcement_def
        fallback_announcement_def)
    apply (subst split_loop.simps)
    apply (simp add: send_telegram_def send_discord_def)
    done
  have pn: "process_new two_entries (u ''f'') 100 100 [entry_at ''a'' 100, entry_at ''b'' 200] =
      Some ([Process_entry (u ''f'') (entry_at ''b'' 200), Fetch (u ''b''),
             Send (fallback_announcement ''f'' ''b'')], Inr 200)"
    using pe by (simp add: entry_at_def)
  have "poll_feed two_entries [(u ''f'', 100)] (u ''f'') 100 =
      Some ([Parse (u ''f''), Process_entry (u ''f'') (entry_at ''b'' 200), Fetch (u ''b''),
             Send (fallback_announcement ''f'' ''b'')], [(u ''f'', 200)])"
    by (simp add: poll_feed_def parse settings feed_of_def srt pn hset_def Let_def
        del: process_new.simps)
  then show ?thesis
    by (simp add: poll_cycle_def get_feeds_def settings)
qed

text \<open>
  X3. A feed whose document does not parse is skipped for the cycle: the pass
  returns, calls \<open>process_entry\<close> for no entry, and leaves the store as it was.
\<close>

theorem poll_feed_skips_malformed:
  assumes "bozo (parse env feed_url)"
  shows "poll_feed env s feed_url last_ts = Some ([Parse feed_url], s)"
  using assms by (simp add: poll_feed_def)

theorem poll_feed_skips_malformed_witness:
  "poll_feed quiet [(u ''f'', 100)] (u ''f'') 100 = Some ([Parse (u ''f'')], [(u ''f'', 100)])"
proof -
  have "bozo (parse quiet (u ''f''))"
    by (simp add: quiet_def)
  from poll_feed_skips_malformed [OF this] show ?thesis .
qed

text \<open>
  X4. With a store that answers, \<open>remove_feed\<close> returns whether the feed was
  watched, and afterwards the feed has no watermark.
\<close>

theorem remove_feed_deletes:
  assumes "redis_up env"
  shows "fst (remove_feed env s feed_url) = (feed_url \<in> set (map fst s)) \<and>
         map_of (snd (remove_feed env s feed_url)) feed_url = None"
  using assms by (simp add: remove_feed_def hdel_def map_of_hdel)

theorem remove_feed_deletes_witness:
  "remove_feed quiet [(u ''f'', 100), (u ''g'', 300)] (u ''f'') = (True, [(u ''g'', 300)])"
proof -
  have "redis_up quiet"
    by (simp add: quiet_def)
  from remove_feed_deletes [OF this, of "[(u ''f'', 100), (u ''g'', 300)]" "u ''f''"]
  show ?thesis
    by (simp add: remove_feed_def hdel_def quiet_def u_def)
qed

end
